theory Spec2Isabelle
  imports Complex_Main
begin

section \<open>Data model of \<^verbatim>\<open>src/cli/multigrid/solver.cpp\<close>\<close>

text \<open>
  The grid properties \<^verbatim>\<open>Eigen::MatrixXi ic(3,2)\<close>, filled by
  \<^verbatim>\<open>ic << x_grid_size, y_grid_size, x_min, x_max, y_min, y_max\<close>:
  \<^verbatim>\<open>ic(0,0)\<close> is \<open>x_grid_size\<close>, \<^verbatim>\<open>ic(0,1)\<close> is \<open>y_grid_size\<close>,
  \<^verbatim>\<open>ic(1,0)\<close>, \<^verbatim>\<open>ic(1,1)\<close> are \<open>x_min\<close>, \<open>x_max\<close> and
  \<^verbatim>\<open>ic(2,0)\<close>, \<^verbatim>\<open>ic(2,1)\<close> are \<open>y_min\<close>, \<open>y_max\<close>.
\<close>

record grid =
  x_grid_size :: int
  y_grid_size :: int
  x_min :: int
  x_max :: int
  y_min :: int
  y_max :: int

text \<open>
  The box boundary conditions \<^verbatim>\<open>Eigen::Vector4f bc_grid\<close>
  (\<^verbatim>\<open>bc_grid << bc_up, bc_down, bc_left, bc_right\<close>) and one row of
  \<^verbatim>\<open>Eigen::MatrixXf circles\<close> (columns 0 to 3). The type \<open>'f\<close> stands for the
  C++ type \<^verbatim>\<open>float\<close>.
\<close>

record 'f box_bc =
  bc_up :: 'f
  bc_down :: 'f
  bc_left :: 'f
  bc_right :: 'f

record 'f circle =
  x_offset :: 'f
  y_offset :: 'f
  radius :: 'f
  voltage :: 'f

text \<open>
  The floating-point arithmetic is not part of the source file: it belongs to the
  platform. It is taken as a parameter, so that every theorem below holds for whatever
  the machine's \<^verbatim>\<open>double\<close> operations compute (rounding, infinities and NaN
  included). \<open>'d\<close> stands for \<^verbatim>\<open>double\<close>; \<open>d_of_int\<close> and \<open>d_of_float\<close> are the
  implicit conversions; \<open>d_pow2 x\<close> is \<^verbatim>\<open>pow(x,2)\<close>.
\<close>

record ('f, 'd) arith =
  d_of_int :: "int \<Rightarrow> 'd"
  d_of_float :: "'f \<Rightarrow> 'd"
  d_add :: "'d \<Rightarrow> 'd \<Rightarrow> 'd"
  d_sub :: "'d \<Rightarrow> 'd \<Rightarrow> 'd"
  d_mul :: "'d \<Rightarrow> 'd \<Rightarrow> 'd"
  d_div :: "'d \<Rightarrow> 'd \<Rightarrow> 'd"
  d_pow2 :: "'d \<Rightarrow> 'd"
  d_le :: "'d \<Rightarrow> 'd \<Rightarrow> bool"

text \<open>Exact arithmetic on the reals: the instance used to run the model on examples.\<close>

definition exact_arith :: "(real, real) arith" where
  "exact_arith =
     \<lparr>d_of_int = of_int, d_of_float = (\<lambda>x. x), d_add = (+), d_sub = (-), d_mul = (*),
      d_div = (/), d_pow2 = (\<lambda>x. x * x), d_le = (\<le>)\<rparr>"

text \<open>
  The C++ type \<^verbatim>\<open>int\<close> has 32 bits. Its values are modelled as integers, and the
  wrap-around is written out at the operations that can leave the range: the flattened
  index \<^verbatim>\<open>i+j*ic(0,0)\<close> and the extent \<^verbatim>\<open>ic(1,1)-ic(1,0)\<close>. The loop counters
  and the stencil offsets \<open>i-1\<close>, \<open>i+1\<close>, \<open>j-1\<close>, \<open>j+1\<close> stay between \<open>-1\<close> and the
  grid size and need no wrap-around.
\<close>

definition wrap32 :: "int \<Rightarrow> int" where
  "wrap32 x = (x + 2147483648) mod 4294967296 - 2147483648"

definition flat_index :: "grid \<Rightarrow> int \<Rightarrow> int \<Rightarrow> int" where
  \<comment> \<open>\<^verbatim>\<open>i+j*ic(0,0)\<close>\<close>
  "flat_index ic i j = wrap32 (i + wrap32 (j * x_grid_size ic))"

text \<open>
  A coefficient \<^verbatim>\<open>Eigen::Triplet<double>\<close> is (row, column, value). Element access
  to a vector or a matrix outside its range is an error value.
\<close>

type_synonym 'd triplet = "int \<times> int \<times> 'd"

datatype error = IndexOutOfRange

definition bind_err :: "error + 'a \<Rightarrow> ('a \<Rightarrow> error + 'b) \<Rightarrow> error + 'b" where
  "bind_err m f = (case m of Inl e \<Rightarrow> Inl e | Inr x \<Rightarrow> f x)"

definition vec_get :: "'a list \<Rightarrow> int \<Rightarrow> error + 'a" where
  \<comment> \<open>reading \<^verbatim>\<open>b(id)\<close> or a row \<^verbatim>\<open>circles(k, _)\<close>\<close>
  "vec_get b n = (if 0 \<le> n \<and> n < int (length b) then Inr (b ! nat n) else Inl IndexOutOfRange)"

definition vec_assign :: "'a list \<Rightarrow> int \<Rightarrow> 'a \<Rightarrow> error + 'a list" where
  \<comment> \<open>\<^verbatim>\<open>b(id) = v\<close>\<close>
  "vec_assign b n v =
     (if 0 \<le> n \<and> n < int (length b) then Inr (b[nat n := v]) else Inl IndexOutOfRange)"

definition vec_sub_assign :: "('f, 'd) arith \<Rightarrow> 'd list \<Rightarrow> int \<Rightarrow> 'd \<Rightarrow> error + 'd list" where
  \<comment> \<open>\<^verbatim>\<open>b(id) -= v\<close>\<close>
  "vec_sub_assign A b n v = bind_err (vec_get b n) (\<lambda>old. vec_assign b n (d_sub A old v))"

section \<open>The inclusion classifier\<close>

text \<open>
  The loop of \<^verbatim>\<open>circularConditionsCheck\<close> over the rows of \<^verbatim>\<open>circles\<close>; \<open>k\<close> is
  \<^verbatim>\<open>current_circle\<close>, the list holds the rows from \<open>k\<close> on.
\<close>

fun circle_loop ::
  "('f, 'd) arith \<Rightarrow> grid \<Rightarrow> 'd \<Rightarrow> 'd \<Rightarrow> int \<Rightarrow> int \<Rightarrow> int \<Rightarrow> 'f circle list \<Rightarrow> bool \<times> int"
where
  "circle_loop A ic dx dy i j k [] = (False, 0)"
| "circle_loop A ic dx dy i j k (c # cs) =
     (if d_le A
           (d_add A
              (d_pow2 A (d_sub A (d_add A (d_of_int A (x_min ic)) (d_mul A (d_of_int A i) dx))
                                 (d_of_float A (x_offset c))))
              (d_pow2 A (d_sub A (d_add A (d_of_int A (y_min ic)) (d_mul A (d_of_int A j) dy))
                                 (d_of_float A (y_offset c)))))
           (d_pow2 A (d_of_float A (radius c)))
      then (True, k)
      else circle_loop A ic dx dy i j (k + 1) cs)"

definition circularConditionsCheck ::
  "('f, 'd) arith \<Rightarrow> int \<Rightarrow> int \<Rightarrow> 'f circle list \<Rightarrow> grid \<Rightarrow> bool \<times> int"
where
  "circularConditionsCheck A i j circles ic =
     (let dx = d_div A (d_of_int A (wrap32 (x_max ic - x_min ic))) (d_of_int A (x_grid_size ic));
          dy = d_div A (d_of_int A (wrap32 (y_max ic - y_min ic))) (d_of_int A (y_grid_size ic))
      in circle_loop A ic dx dy i j 0 circles)"

section \<open>The stencil assembler\<close>

text \<open>
  \<^verbatim>\<open>insertCoefficient\<close> resolves one neighbour \<open>(i, j)\<close> of the centre \<^verbatim>\<open>id\<close>
  (written \<open>id0\<close> here): it either subtracts \<open>w\<close> times a known voltage from
  \<^verbatim>\<open>b(id)\<close> or appends the coefficient \<^verbatim>\<open>T(id,id1,w)\<close>. The matrix \<^verbatim>\<open>circles\<close>
  has four columns, so \<^verbatim>\<open>circles.size() != 0\<close> says that the list of its rows is not
  empty. The weights \<^verbatim>\<open>-1\<close> and \<^verbatim>\<open>4\<close> of the calls and the literal \<^verbatim>\<open>1.0\<close> are
  the doubles of these integers.
\<close>

definition insertCoefficient ::
  "('f, 'd) arith \<Rightarrow> int \<Rightarrow> int \<Rightarrow> int \<Rightarrow> 'd \<Rightarrow> 'd triplet list \<Rightarrow> 'd list \<Rightarrow>
     'f circle list \<Rightarrow> grid \<Rightarrow> 'f box_bc \<Rightarrow> error + ('d triplet list \<times> 'd list)"
where
  "insertCoefficient A id0 i j w coeffs b circles ic bc_grid =
     (let id1 = flat_index ic i j;
          isCircle = (if circles \<noteq> [] then circularConditionsCheck A i j circles ic
                      else (False, 0))
      in
        if i = - 1 then
          bind_err (vec_sub_assign A b id0 (d_mul A w (d_of_float A (bc_left bc_grid))))
            (\<lambda>b'. Inr (coeffs, b'))
        else if i = x_grid_size ic then
          bind_err (vec_sub_assign A b id0 (d_mul A w (d_of_float A (bc_right bc_grid))))
            (\<lambda>b'. Inr (coeffs, b'))
        else if j = - 1 then
          bind_err (vec_sub_assign A b id0 (d_mul A w (d_of_float A (bc_up bc_grid))))
            (\<lambda>b'. Inr (coeffs, b'))
        else if j = y_grid_size ic then
          bind_err (vec_sub_assign A b id0 (d_mul A w (d_of_float A (bc_down bc_grid))))
            (\<lambda>b'. Inr (coeffs, b'))
        else if fst isCircle then
          bind_err (vec_get circles (snd isCircle)) (\<lambda>c.
          bind_err (vec_sub_assign A b id0 (d_mul A w (d_of_float A (voltage c))))
            (\<lambda>b'. Inr (coeffs, b')))
        else Inr (coeffs @ [(id0, id1, w)], b))"

text \<open>
  A counting loop \<^verbatim>\<open>for(int k=k0; k<n; ++k) body\<close> over a state, stopping at the
  first error.
\<close>

function for_loop ::
  "int \<Rightarrow> int \<Rightarrow> (int \<Rightarrow> 's \<Rightarrow> error + 's) \<Rightarrow> 's \<Rightarrow> error + 's"
where
  "for_loop k n body s =
     (if k < n then bind_err (body k s) (for_loop (k + 1) n body) else Inr s)"
  by pat_completeness auto
termination
  by (relation "measure (\<lambda>(k, n, body, s). nat (n - k))") auto

text \<open>The body of the inner loop of \<^verbatim>\<open>buildProblem\<close>, at the grid point \<open>(i, j)\<close>.\<close>

definition point_body ::
  "('f, 'd) arith \<Rightarrow> 'f circle list \<Rightarrow> grid \<Rightarrow> 'f box_bc \<Rightarrow> int \<Rightarrow> int \<Rightarrow>
     'd triplet list \<times> 'd list \<Rightarrow> error + ('d triplet list \<times> 'd list)"
where
  "point_body A circles ic bc_grid j i s =
     (let coefficients = fst s; b = snd s; id0 = flat_index ic i j in
        if circles \<noteq> [] \<and> fst (circularConditionsCheck A i j circles ic) then
          bind_err (vec_get circles (snd (circularConditionsCheck A i j circles ic))) (\<lambda>c.
          bind_err (vec_assign b id0 (d_of_float A (voltage c))) (\<lambda>b'.
            Inr (coefficients @ [(id0, id0, d_of_int A 1)], b')))
        else
          bind_err (insertCoefficient A id0 (i - 1) j (d_of_int A (- 1)) coefficients b
                      circles ic bc_grid) (\<lambda>(coefficients, b).
          bind_err (insertCoefficient A id0 (i + 1) j (d_of_int A (- 1)) coefficients b
                      circles ic bc_grid) (\<lambda>(coefficients, b).
          bind_err (insertCoefficient A id0 i (j - 1) (d_of_int A (- 1)) coefficients b
                      circles ic bc_grid) (\<lambda>(coefficients, b).
          bind_err (insertCoefficient A id0 i (j + 1) (d_of_int A (- 1)) coefficients b
                      circles ic bc_grid) (\<lambda>(coefficients, b).
          insertCoefficient A id0 i j (d_of_int A 4) coefficients b circles ic bc_grid)))))"

definition buildProblem ::
  "('f, 'd) arith \<Rightarrow> 'd triplet list \<Rightarrow> 'd list \<Rightarrow> 'f circle list \<Rightarrow> grid \<Rightarrow> 'f box_bc \<Rightarrow>
     error + ('d triplet list \<times> 'd list)"
where
  "buildProblem A coefficients b circles ic bc_grid =
     for_loop 0 (y_grid_size ic)
       (\<lambda>j. for_loop 0 (x_grid_size ic) (point_body A circles ic bc_grid j))
       (coefficients, map (\<lambda>_. d_of_int A 0) b)"

section \<open>The output reshape\<close>

text \<open>
  The loop nest of \<^verbatim>\<open>main\<close> that fills \<^verbatim>\<open>Eigen::MatrixXd result(y_grid_size,x_grid_size)\<close>
  from the solution vector: \<^verbatim>\<open>result(j,i) = x(i + j*x_grid_size)\<close>. A matrix is the list
  of its rows; \<open>mat_assign m r c v\<close> is \<^verbatim>\<open>m(r,c) = v\<close>.
\<close>

definition mat_assign :: "'a list list \<Rightarrow> int \<Rightarrow> int \<Rightarrow> 'a \<Rightarrow> error + 'a list list" where
  "mat_assign m r c v =
     bind_err (vec_get m r) (\<lambda>row.
     bind_err (vec_assign row c v) (\<lambda>row'. vec_assign m r row'))"

definition result_body ::
  "grid \<Rightarrow> 'a list \<Rightarrow> int \<Rightarrow> int \<Rightarrow> 'a list list \<Rightarrow> error + 'a list list"
where
  "result_body ic x j i result =
     bind_err (vec_get x (flat_index ic i j)) (\<lambda>v. mat_assign result j i v)"

definition reshape_result :: "grid \<Rightarrow> 'a list \<Rightarrow> 'a list list \<Rightarrow> error + 'a list list" where
  "reshape_result ic x result =
     for_loop 0 (y_grid_size ic)
       (\<lambda>j. for_loop 0 (x_grid_size ic) (result_body ic x j)) result"

section \<open>Configurations and the specification of the classifier\<close>

text \<open>
  A valid grid has at least one cell in each direction, and its number of unknowns, the
  dimension \<^verbatim>\<open>ic(0,0)*ic(0,1)\<close> that \<^verbatim>\<open>main\<close> gives to the right-hand side and to
  the matrix, is a value of the type \<^verbatim>\<open>int\<close>. \<open>in_grid\<close> is the range of the two loop
  counters; \<open>int32_range\<close> says that a value fits the type \<^verbatim>\<open>int\<close>; \<open>grid_shape\<close>
  is the shape \<open>y_grid_size \<times> x_grid_size\<close> of the result matrix.
\<close>

definition valid_grid :: "grid \<Rightarrow> bool" where
  "valid_grid ic \<longleftrightarrow>
     1 \<le> x_grid_size ic \<and> 1 \<le> y_grid_size ic \<and> x_grid_size ic * y_grid_size ic \<le> 2147483647"

definition in_grid :: "grid \<Rightarrow> int \<Rightarrow> int \<Rightarrow> bool" where
  "in_grid ic i j \<longleftrightarrow> 0 \<le> i \<and> i < x_grid_size ic \<and> 0 \<le> j \<and> j < y_grid_size ic"

definition int32_range :: "int \<Rightarrow> bool" where
  "int32_range x \<longleftrightarrow> - 2147483648 \<le> x \<and> x \<le> 2147483647"

definition grid_shape :: "grid \<Rightarrow> 'a list list \<Rightarrow> bool" where
  "grid_shape ic m \<longleftrightarrow>
     int (length m) = y_grid_size ic \<and> (\<forall>row \<in> set m. int (length row) = x_grid_size ic)"

text \<open>
  The classifier as the specification words it, to be compared with
  \<open>circularConditionsCheck\<close>: the physical coordinates are \<open>x = xmin + i*dx\<close> and
  \<open>y = ymin + j*dy\<close> with \<open>dx = (xmax-xmin)/nx\<close> and \<open>dy = (ymax-ymin)/ny\<close>; an
  inclusion matches when \<open>(x-x_k)^2 + (y-y_k)^2 <= radius_k^2\<close>; the answer is the first
  index of the list that matches, or none.
\<close>

definition spec_inside :: "('f, 'd) arith \<Rightarrow> grid \<Rightarrow> int \<Rightarrow> int \<Rightarrow> 'f circle \<Rightarrow> bool" where
  "spec_inside A ic i j c =
     (let dx = d_div A (d_of_int A (x_max ic - x_min ic)) (d_of_int A (x_grid_size ic));
          dy = d_div A (d_of_int A (y_max ic - y_min ic)) (d_of_int A (y_grid_size ic));
          x = d_add A (d_of_int A (x_min ic)) (d_mul A (d_of_int A i) dx);
          y = d_add A (d_of_int A (y_min ic)) (d_mul A (d_of_int A j) dy)
      in d_le A (d_add A (d_pow2 A (d_sub A x (d_of_float A (x_offset c))))
                         (d_pow2 A (d_sub A y (d_of_float A (y_offset c)))))
                (d_pow2 A (d_of_float A (radius c))))"

definition spec_classify ::
  "('f, 'd) arith \<Rightarrow> int \<Rightarrow> int \<Rightarrow> 'f circle list \<Rightarrow> grid \<Rightarrow> nat option"
where
  "spec_classify A i j circles ic =
     (case filter (\<lambda>k. spec_inside A ic i j (circles ! k)) [0..<length circles] of
        [] \<Rightarrow> None
      | k # _ \<Rightarrow> Some k)"

section \<open>What one grid point contributes\<close>

text \<open>
  The definitions of this section describe the result of the assembly in closed form;
  the lemmas below prove that the loops compute it. \<open>pinned\<close> is the test of
  \<^verbatim>\<open>buildProblem\<close> for a point inside an inclusion. \<open>known_value\<close> is the voltage
  that \<^verbatim>\<open>insertCoefficient\<close> folds into the right-hand side for the neighbour
  \<open>(i, j)\<close>, if any. \<open>pt_coeffs\<close> and \<open>pt_rhs\<close> are the coefficients that the point
  \<open>(i, j)\<close> appends and what it does to its entry of the right-hand side.
\<close>

definition pinned :: "('f, 'd) arith \<Rightarrow> 'f circle list \<Rightarrow> grid \<Rightarrow> int \<Rightarrow> int \<Rightarrow> bool" where
  "pinned A circles ic i j \<longleftrightarrow> circles \<noteq> [] \<and> fst (circularConditionsCheck A i j circles ic)"

definition known_value ::
  "('f, 'd) arith \<Rightarrow> 'f circle list \<Rightarrow> grid \<Rightarrow> 'f box_bc \<Rightarrow> int \<Rightarrow> int \<Rightarrow> 'f option"
where
  "known_value A circles ic bc_grid i j =
     (if i = - 1 then Some (bc_left bc_grid)
      else if i = x_grid_size ic then Some (bc_right bc_grid)
      else if j = - 1 then Some (bc_up bc_grid)
      else if j = y_grid_size ic then Some (bc_down bc_grid)
      else if pinned A circles ic i j
        then Some (voltage (circles ! nat (snd (circularConditionsCheck A i j circles ic))))
      else None)"

definition nb_coeff ::
  "('f, 'd) arith \<Rightarrow> 'f circle list \<Rightarrow> grid \<Rightarrow> 'f box_bc \<Rightarrow> int \<Rightarrow> int \<Rightarrow> int \<Rightarrow> 'd \<Rightarrow>
     'd triplet list"
where
  "nb_coeff A circles ic bc_grid id0 i j w =
     (case known_value A circles ic bc_grid i j of
        Some v \<Rightarrow> [] | None \<Rightarrow> [(id0, flat_index ic i j, w)])"

definition nb_rhs ::
  "('f, 'd) arith \<Rightarrow> 'f circle list \<Rightarrow> grid \<Rightarrow> 'f box_bc \<Rightarrow> int \<Rightarrow> int \<Rightarrow> 'd \<Rightarrow> 'd \<Rightarrow> 'd"
where
  "nb_rhs A circles ic bc_grid i j w x =
     (case known_value A circles ic bc_grid i j of
        Some v \<Rightarrow> d_sub A x (d_mul A w (d_of_float A v)) | None \<Rightarrow> x)"

definition pt_coeffs ::
  "('f, 'd) arith \<Rightarrow> 'f circle list \<Rightarrow> grid \<Rightarrow> 'f box_bc \<Rightarrow> int \<Rightarrow> int \<Rightarrow> 'd triplet list"
where
  "pt_coeffs A circles ic bc_grid i j =
     (let id0 = flat_index ic i j in
      if pinned A circles ic i j then [(id0, id0, d_of_int A 1)]
      else nb_coeff A circles ic bc_grid id0 (i - 1) j (d_of_int A (- 1)) @
           nb_coeff A circles ic bc_grid id0 (i + 1) j (d_of_int A (- 1)) @
           nb_coeff A circles ic bc_grid id0 i (j - 1) (d_of_int A (- 1)) @
           nb_coeff A circles ic bc_grid id0 i (j + 1) (d_of_int A (- 1)) @
           nb_coeff A circles ic bc_grid id0 i j (d_of_int A 4))"

definition pt_rhs ::
  "('f, 'd) arith \<Rightarrow> 'f circle list \<Rightarrow> grid \<Rightarrow> 'f box_bc \<Rightarrow> int \<Rightarrow> int \<Rightarrow> 'd \<Rightarrow> 'd"
where
  "pt_rhs A circles ic bc_grid i j x =
     (if pinned A circles ic i j
      then d_of_float A (voltage (circles ! nat (snd (circularConditionsCheck A i j circles ic))))
      else nb_rhs A circles ic bc_grid i j (d_of_int A 4)
            (nb_rhs A circles ic bc_grid i (j + 1) (d_of_int A (- 1))
              (nb_rhs A circles ic bc_grid i (j - 1) (d_of_int A (- 1))
                (nb_rhs A circles ic bc_grid (i + 1) j (d_of_int A (- 1))
                  (nb_rhs A circles ic bc_grid (i - 1) j (d_of_int A (- 1)) x)))))"

definition pt_step ::
  "('f, 'd) arith \<Rightarrow> 'f circle list \<Rightarrow> grid \<Rightarrow> 'f box_bc \<Rightarrow> int \<Rightarrow> int \<Rightarrow>
     'd triplet list \<times> 'd list \<Rightarrow> 'd triplet list \<times> 'd list"
where
  "pt_step A circles ic bc_grid j i s =
     (fst s @ pt_coeffs A circles ic bc_grid i j,
      (snd s)[nat (flat_index ic i j) :=
         pt_rhs A circles ic bc_grid i j (snd s ! nat (flat_index ic i j))])"

definition grid_points :: "grid \<Rightarrow> (int \<times> int) list" where
  "grid_points ic =
     concat (map (\<lambda>j. map (\<lambda>i. (i, j)) [0..x_grid_size ic - 1]) [0..y_grid_size ic - 1])"

definition rhs_upd ::
  "('f, 'd) arith \<Rightarrow> 'f circle list \<Rightarrow> grid \<Rightarrow> 'f box_bc \<Rightarrow> int \<times> int \<Rightarrow> 'd list \<Rightarrow> 'd list"
where
  "rhs_upd A circles ic bc_grid p b =
     b[nat (flat_index ic (fst p) (snd p)) :=
         pt_rhs A circles ic bc_grid (fst p) (snd p) (b ! nat (flat_index ic (fst p) (snd p)))]"

definition unknown :: "('f, 'd) arith \<Rightarrow> 'f circle list \<Rightarrow> grid \<Rightarrow> int \<times> int \<Rightarrow> bool" where
  "unknown A circles ic p \<longleftrightarrow> in_grid ic (fst p) (snd p) \<and> \<not> pinned A circles ic (fst p) (snd p)"

definition nbrs :: "int \<Rightarrow> int \<Rightarrow> (int \<times> int) list" where
  "nbrs i j = [(i - 1, j), (i + 1, j), (i, j - 1), (i, j + 1)]"

definition all_coeffs ::
  "('f, 'd) arith \<Rightarrow> 'f circle list \<Rightarrow> grid \<Rightarrow> 'f box_bc \<Rightarrow> 'd triplet list"
where
  "all_coeffs A circles ic bc_grid =
     concat (map (\<lambda>p. pt_coeffs A circles ic bc_grid (fst p) (snd p)) (grid_points ic))"

section \<open>Example inputs\<close>

text \<open>
  A 2 by 2 grid and a 1 by 1 grid with unit spacing, box voltages up = 1, down = 2,
  left = 3, right = 4, and a constructor for inclusions.
\<close>

definition grid2 :: grid where
  "grid2 = \<lparr>x_grid_size = 2, y_grid_size = 2, x_min = 0, x_max = 2, y_min = 0, y_max = 2\<rparr>"

definition grid1 :: grid where
  "grid1 = \<lparr>x_grid_size = 1, y_grid_size = 1, x_min = 0, x_max = 1, y_min = 0, y_max = 1\<rparr>"

definition box1234 :: "real box_bc" where
  "box1234 = \<lparr>bc_up = 1, bc_down = 2, bc_left = 3, bc_right = 4\<rparr>"

definition disc :: "real \<Rightarrow> real \<Rightarrow> real \<Rightarrow> real \<Rightarrow> real circle" where
  "disc x y r v = \<lparr>x_offset = x, y_offset = y, radius = r, voltage = v\<rparr>"

declare for_loop.simps [simp del]

section \<open>The flattened index\<close>

lemma wrap32_id: "- 2147483648 \<le> x \<Longrightarrow> x \<le> 2147483647 \<Longrightarrow> wrap32 x = x"
  by (simp add: wrap32_def)

lemma grid_row_bound:
  assumes "valid_grid ic" "in_grid ic i j"
  shows "0 \<le> j * x_grid_size ic" "i + j * x_grid_size ic < x_grid_size ic * y_grid_size ic"
proof -
  from assms have j: "0 \<le> j" "j + 1 \<le> y_grid_size ic" and i: "0 \<le> i" "i < x_grid_size ic"
    and nx: "0 < x_grid_size ic"
    by (auto simp: valid_grid_def in_grid_def)
  show "0 \<le> j * x_grid_size ic" using j nx by simp
  have "(j + 1) * x_grid_size ic \<le> y_grid_size ic * x_grid_size ic"
    using j nx by (intro mult_right_mono) auto
  then show "i + j * x_grid_size ic < x_grid_size ic * y_grid_size ic"
    using i by (simp add: algebra_simps)
qed

lemma flat_index_in_grid:
  assumes "valid_grid ic" "in_grid ic i j"
  shows "flat_index ic i j = i + j * x_grid_size ic"
proof -
  note b = grid_row_bound [OF assms]
  from assms have i: "0 \<le> i" and v: "x_grid_size ic * y_grid_size ic \<le> 2147483647"
    by (auto simp: valid_grid_def in_grid_def)
  have "wrap32 (j * x_grid_size ic) = j * x_grid_size ic"
    using b i v by (intro wrap32_id) auto
  moreover have "wrap32 (i + j * x_grid_size ic) = i + j * x_grid_size ic"
    using b i v by (intro wrap32_id) auto
  ultimately show ?thesis by (simp add: flat_index_def)
qed

lemma flat_index_range:
  assumes "valid_grid ic" "in_grid ic i j"
  shows "0 \<le> flat_index ic i j" "flat_index ic i j < x_grid_size ic * y_grid_size ic"
  using grid_row_bound [OF assms] flat_index_in_grid [OF assms] assms
  by (auto simp: in_grid_def)

lemma flat_index_inj:
  assumes "valid_grid ic" "in_grid ic i j" "in_grid ic i' j'"
    and "flat_index ic i j = flat_index ic i' j'"
  shows "i = i' \<and> j = j'"
proof -
  let ?n = "x_grid_size ic"
  from assms have e: "i + j * ?n = i' + j' * ?n"
    by (simp add: flat_index_in_grid)
  from assms have r: "0 \<le> i" "i < ?n" "0 \<le> i'" "i' < ?n"
    by (auto simp: in_grid_def)
  have "(i + j * ?n) mod ?n = i" "(i' + j' * ?n) mod ?n = i'"
    using r by simp_all
  with e have "i = i'" by simp
  with e r show ?thesis by simp
qed

lemma flat_index_eq_iff:
  assumes "valid_grid ic" "in_grid ic (fst p) (snd p)" "in_grid ic (fst q) (snd q)"
  shows "flat_index ic (fst p) (snd p) = flat_index ic (fst q) (snd q) \<longleftrightarrow> p = q"
  using flat_index_inj [OF assms] by (auto simp: prod_eq_iff)

lemma unflatten_in_grid:
  assumes v: "valid_grid ic" and n: "0 \<le> n" "n < x_grid_size ic * y_grid_size ic"
  shows "in_grid ic (n mod x_grid_size ic) (n div x_grid_size ic)"
    and "flat_index ic (n mod x_grid_size ic) (n div x_grid_size ic) = n"
proof -
  let ?nx = "x_grid_size ic"
  from v have nx: "0 < ?nx" by (simp add: valid_grid_def)
  have "0 \<le> n mod ?nx" using nx by simp
  moreover have "?nx * (n div ?nx) + n mod ?nx = n" by simp
  ultimately have "?nx * (n div ?nx) \<le> n" by linarith
  with n(2) have "?nx * (n div ?nx) < ?nx * y_grid_size ic" by linarith
  then have "n div ?nx < y_grid_size ic"
    using nx by (simp add: mult_less_cancel_left_pos)
  then show g: "in_grid ic (n mod ?nx) (n div ?nx)"
    using nx n(1) by (simp add: in_grid_def pos_imp_zdiv_nonneg_iff)
  show "flat_index ic (n mod ?nx) (n div ?nx) = n"
    by (simp add: flat_index_in_grid [OF v g])
qed

lemma flat_index_bij:
  assumes v: "valid_grid ic"
  shows "bij_betw (\<lambda>(i, j). flat_index ic i j) {(i, j). in_grid ic i j}
           {0..<x_grid_size ic * y_grid_size ic}"
  unfolding bij_betw_def
proof
  show "inj_on (\<lambda>(i, j). flat_index ic i j) {(i, j). in_grid ic i j}"
    using flat_index_inj [OF v] by (auto simp: inj_on_def)
  show "(\<lambda>(i, j). flat_index ic i j) ` {(i, j). in_grid ic i j} =
        {0..<x_grid_size ic * y_grid_size ic}"
  proof (intro set_eqI iffI)
    fix n assume "n \<in> (\<lambda>(i, j). flat_index ic i j) ` {(i, j). in_grid ic i j}"
    then show "n \<in> {0..<x_grid_size ic * y_grid_size ic}"
      using flat_index_range [OF v] by auto
  next
    fix n assume "n \<in> {0..<x_grid_size ic * y_grid_size ic}"
    then have "in_grid ic (n mod x_grid_size ic) (n div x_grid_size ic)"
      and "flat_index ic (n mod x_grid_size ic) (n div x_grid_size ic) = n"
      using unflatten_in_grid [OF v, of n] by auto
    then show "n \<in> (\<lambda>(i, j). flat_index ic i j) ` {(i, j). in_grid ic i j}"
      by force
  qed
qed

section \<open>The classifier returns an index of the list\<close>

lemma circle_loop_range:
  "circle_loop A ic dx dy i j k cs = (True, m) \<Longrightarrow> k \<le> m \<and> m < k + int (length cs)"
  by (induction cs arbitrary: k) (fastforce split: if_splits)+

lemma circle_loop_False:
  "\<not> fst (circle_loop A ic dx dy i j k cs) \<Longrightarrow> circle_loop A ic dx dy i j k cs = (False, 0)"
  by (induction cs arbitrary: k) (auto split: if_splits)

lemma check_range:
  assumes "fst (circularConditionsCheck A i j circles ic)"
  shows "0 \<le> snd (circularConditionsCheck A i j circles ic)"
    and "snd (circularConditionsCheck A i j circles ic) < int (length circles)"
proof -
  obtain m where "circularConditionsCheck A i j circles ic = (True, m)"
    using assms by (cases "circularConditionsCheck A i j circles ic") auto
  then show "0 \<le> snd (circularConditionsCheck A i j circles ic)"
    and "snd (circularConditionsCheck A i j circles ic) < int (length circles)"
    using circle_loop_range [of A ic _ _ i j 0 circles m]
    by (auto simp: circularConditionsCheck_def Let_def)
qed

lemma circle_loop_first:
  "circle_loop A ic dx dy i j k cs =
     (case filter (\<lambda>n. fst (circle_loop A ic dx dy i j 0 [cs ! n])) [0..<length cs] of
        [] \<Rightarrow> (False, 0)
      | n # _ \<Rightarrow> (True, k + int n))"
proof (induction cs arbitrary: k)
  case Nil
  then show ?case by simp
next
  case (Cons c cs)
  have u: "[0..<length (c # cs)] = 0 # map Suc [0..<length cs]"
    by (simp add: upt_conv_Cons map_Suc_upt del: upt_Suc)
  show ?case
    unfolding u by (simp add: Cons.IH [of "k + 1"] filter_map comp_def split: list.split)
qed

section \<open>One call of insertCoefficient, one grid point\<close>

lemma vec_sub_assign_ok:
  "0 \<le> n \<Longrightarrow> n < int (length b) \<Longrightarrow>
   vec_sub_assign A b n v = Inr (b[nat n := d_sub A (b ! nat n) v])"
  by (simp add: vec_sub_assign_def vec_get_def vec_assign_def bind_err_def)

lemma insertCoefficient_eq:
  assumes "0 \<le> id0" "id0 < int (length b)"
  shows "insertCoefficient A id0 i j w coeffs b circles ic bc_grid =
     Inr (case known_value A circles ic bc_grid i j of
            Some v \<Rightarrow> (coeffs, b[nat id0 := d_sub A (b ! nat id0) (d_mul A w (d_of_float A v))])
          | None \<Rightarrow> (coeffs @ [(id0, flat_index ic i j, w)], b))"
  using assms check_range [of A i j circles ic]
  by (simp add: insertCoefficient_def known_value_def pinned_def vec_sub_assign_ok
      bind_err_def vec_get_def Let_def)

lemma insertCoefficient_nb:
  assumes "0 \<le> id0" "id0 < int (length b)"
  shows "insertCoefficient A id0 i j w coeffs b circles ic bc_grid =
     Inr (coeffs @ nb_coeff A circles ic bc_grid id0 i j w,
          b[nat id0 := nb_rhs A circles ic bc_grid i j w (b ! nat id0)])"
  using assms
  by (simp add: insertCoefficient_eq nb_coeff_def nb_rhs_def split: option.split)

lemma insertCoefficient_emit:
  assumes "i \<noteq> - 1" "i \<noteq> x_grid_size ic" "j \<noteq> - 1" "j \<noteq> y_grid_size ic"
    and "\<not> (circles \<noteq> [] \<and> fst (circularConditionsCheck A i j circles ic))"
  shows "insertCoefficient A id0 i j w coeffs b circles ic bc_grid =
           Inr (coeffs @ [(id0, flat_index ic i j, w)], b)"
  using assms by (auto simp: insertCoefficient_def Let_def)

lemma point_body_eq:
  assumes "0 \<le> flat_index ic i j" "flat_index ic i j < int (length (snd s))"
  shows "point_body A circles ic bc_grid j i s = Inr (pt_step A circles ic bc_grid j i s)"
proof (cases "pinned A circles ic i j")
  case True
  then have c: "circles \<noteq> [] \<and> fst (circularConditionsCheck A i j circles ic)"
    by (simp add: pinned_def)
  have "vec_get circles (snd (circularConditionsCheck A i j circles ic)) =
        Inr (circles ! nat (snd (circularConditionsCheck A i j circles ic)))"
    using c check_range [of A i j circles ic] by (simp add: vec_get_def)
  then show ?thesis
    using assms True c
    by (simp add: point_body_def pt_step_def pt_coeffs_def pt_rhs_def Let_def
        bind_err_def vec_assign_def)
next
  case False
  then have c: "(circles \<noteq> [] \<and> fst (circularConditionsCheck A i j circles ic)) = False"
    by (simp add: pinned_def)
  show ?thesis
    unfolding point_body_def c
    using assms False
    by (simp add: pt_step_def pt_coeffs_def pt_rhs_def Let_def
        bind_err_def insertCoefficient_nb)
qed

section \<open>The loops\<close>

lemma for_loop_fold:
  assumes "\<And>k s. i \<le> k \<Longrightarrow> k < n \<Longrightarrow> Inv s \<Longrightarrow> body k s = Inr (g k s) \<and> Inv (g k s)"
    and "Inv s"
  shows "for_loop i n body s = Inr (fold g [i..n - 1] s) \<and> Inv (fold g [i..n - 1] s)"
  using assms
proof (induction "nat (n - i)" arbitrary: i s)
  case 0
  then show ?case by (simp add: for_loop.simps [of i])
next
  case (Suc m)
  then have lt: "i < n" by linarith
  have step: "body i s = Inr (g i s)" "Inv (g i s)"
    using Suc.prems(1) [of i s] lt Suc.prems(2) by auto
  have "m = nat (n - (i + 1))" using Suc.hyps(2) by linarith
  then have "for_loop (i + 1) n body (g i s) = Inr (fold g [i + 1..n - 1] (g i s)) \<and>
             Inv (fold g [i + 1..n - 1] (g i s))"
    using Suc.prems(1) step(2) by (intro Suc.hyps(1)) auto
  moreover have "[i..n - 1] = i # [i + 1..n - 1]"
    using lt by (simp add: upto_rec1)
  ultimately show ?case
    using lt step by (simp add: for_loop.simps [of i] bind_err_def)
qed

lemma set_grid_points: "set (grid_points ic) = {(i, j). in_grid ic i j}"
  by (auto simp: grid_points_def in_grid_def)

lemma distinct_rows:
  "distinct is \<Longrightarrow> distinct js \<Longrightarrow> distinct (concat (map (\<lambda>j. map (\<lambda>i. (i, j)) is) js))"
  by (induction js) (auto simp: distinct_map inj_on_def)

lemma distinct_grid_points: "distinct (grid_points ic)"
  unfolding grid_points_def by (rule distinct_rows) simp_all

lemma length_rhs_upd [simp]: "length (rhs_upd A circles ic bc_grid p b) = length b"
  by (simp add: rhs_upd_def)

lemma length_fold_rhs_upd [simp]:
  "length (fold (rhs_upd A circles ic bc_grid) ps b) = length b"
  by (induction ps arbitrary: b) auto

lemma fold_pt_step:
  "fold (\<lambda>p. pt_step A circles ic bc_grid (snd p) (fst p)) ps (cs, b) =
     (cs @ concat (map (\<lambda>p. pt_coeffs A circles ic bc_grid (fst p) (snd p)) ps),
      fold (rhs_upd A circles ic bc_grid) ps b)"
  by (induction ps arbitrary: cs b) (auto simp: pt_step_def rhs_upd_def)

lemma inner_loop:
  fixes A :: "('f, 'd) arith"
  assumes v: "valid_grid ic" and j: "0 \<le> j" "j < y_grid_size ic"
    and len: "int (length (snd s)) = x_grid_size ic * y_grid_size ic"
  shows "for_loop 0 (x_grid_size ic) (point_body A circles ic bc_grid j) s =
           Inr (fold (pt_step A circles ic bc_grid j) [0..x_grid_size ic - 1] s) \<and>
         int (length (snd (fold (pt_step A circles ic bc_grid j) [0..x_grid_size ic - 1] s))) =
           x_grid_size ic * y_grid_size ic"
proof -
  have step: "point_body A circles ic bc_grid j k t = Inr (pt_step A circles ic bc_grid j k t) \<and>
        int (length (snd (pt_step A circles ic bc_grid j k t))) = x_grid_size ic * y_grid_size ic"
    if k: "0 \<le> k" "k < x_grid_size ic"
      and l: "int (length (snd t)) = x_grid_size ic * y_grid_size ic"
    for k and t :: "'d triplet list \<times> 'd list"
  proof -
    from k j have g: "in_grid ic k j" by (simp add: in_grid_def)
    show ?thesis
      using flat_index_range [OF v g] l by (simp add: point_body_eq) (simp add: pt_step_def)
  qed
  show ?thesis
    using for_loop_fold [where Inv = "\<lambda>s. int (length (snd s)) = x_grid_size ic * y_grid_size ic"
        and i = 0 and n = "x_grid_size ic" and s = s
        and body = "point_body A circles ic bc_grid j"
        and g = "pt_step A circles ic bc_grid j"] step len
    by blast
qed

lemma outer_loop:
  assumes v: "valid_grid ic"
    and len: "int (length (snd s)) = x_grid_size ic * y_grid_size ic"
  shows "for_loop 0 (y_grid_size ic)
           (\<lambda>j. for_loop 0 (x_grid_size ic) (point_body A circles ic bc_grid j)) s =
         Inr (fold (\<lambda>j. fold (pt_step A circles ic bc_grid j) [0..x_grid_size ic - 1])
                [0..y_grid_size ic - 1] s)"
  using for_loop_fold [where Inv = "\<lambda>s. int (length (snd s)) = x_grid_size ic * y_grid_size ic"
      and i = 0 and n = "y_grid_size ic" and s = s
      and body = "\<lambda>j. for_loop 0 (x_grid_size ic) (point_body A circles ic bc_grid j)"
      and g = "\<lambda>j. fold (pt_step A circles ic bc_grid j) [0..x_grid_size ic - 1]"]
    inner_loop [OF v] len
  by blast

lemma fold_over_concat: "fold f (concat xss) s = fold (\<lambda>xs. fold f xs) xss s"
  by (induction xss arbitrary: s) auto

lemma fold_grid_points:
  "fold (\<lambda>j. fold (pt_step A circles ic bc_grid j) [0..x_grid_size ic - 1])
     [0..y_grid_size ic - 1] s =
   fold (\<lambda>p. pt_step A circles ic bc_grid (snd p) (fst p)) (grid_points ic) s"
  by (simp add: grid_points_def fold_over_concat fold_map comp_def)

lemma buildProblem_fold:
  assumes "valid_grid ic" "int (length b) = x_grid_size ic * y_grid_size ic"
  shows "buildProblem A coefficients b circles ic bc_grid =
     Inr (coefficients @
            concat (map (\<lambda>p. pt_coeffs A circles ic bc_grid (fst p) (snd p)) (grid_points ic)),
          fold (rhs_upd A circles ic bc_grid) (grid_points ic) (map (\<lambda>_. d_of_int A 0) b))"
  using assms
  by (simp add: buildProblem_def outer_loop fold_grid_points fold_pt_step)

lemma fold_rhs_upd_other:
  "k \<notin> (\<lambda>p. nat (flat_index ic (fst p) (snd p))) ` set ps \<Longrightarrow>
   fold (rhs_upd A circles ic bc_grid) ps b ! k = b ! k"
  by (induction ps arbitrary: b) (auto simp: rhs_upd_def)

lemma fold_rhs_upd_at:
  assumes "distinct ps" "inj_on (\<lambda>p. nat (flat_index ic (fst p) (snd p))) (set ps)"
    and "p \<in> set ps" "nat (flat_index ic (fst p) (snd p)) < length b"
  shows "fold (rhs_upd A circles ic bc_grid) ps b ! nat (flat_index ic (fst p) (snd p)) =
         pt_rhs A circles ic bc_grid (fst p) (snd p) (b ! nat (flat_index ic (fst p) (snd p)))"
  using assms
proof (induction ps arbitrary: b)
  case Nil
  then show ?case by simp
next
  case (Cons q ps)
  let ?K = "\<lambda>p. nat (flat_index ic (fst p) (snd p))"
  show ?case
  proof (cases "p = q")
    case True
    have "?K q \<notin> ?K ` set ps"
      using Cons.prems(1,2) by (auto simp: inj_on_def)
    then have "fold (rhs_upd A circles ic bc_grid) ps (rhs_upd A circles ic bc_grid q b) ! ?K q =
               rhs_upd A circles ic bc_grid q b ! ?K q"
      by (rule fold_rhs_upd_other)
    moreover have "rhs_upd A circles ic bc_grid q b ! ?K q =
               pt_rhs A circles ic bc_grid (fst q) (snd q) (b ! ?K q)"
      using True Cons.prems(4) by (simp add: rhs_upd_def)
    ultimately show ?thesis
      using True by simp
  next
    case False
    then have p: "p \<in> set ps" using Cons.prems(3) by simp
    have ne: "?K q \<noteq> ?K p"
      using False Cons.prems(2,3) by (auto simp: inj_on_def)
    have "fold (rhs_upd A circles ic bc_grid) ps (rhs_upd A circles ic bc_grid q b) ! ?K p =
          pt_rhs A circles ic bc_grid (fst p) (snd p) (rhs_upd A circles ic bc_grid q b ! ?K p)"
      using Cons.prems p by (intro Cons.IH) (auto simp: inj_on_def)
    moreover have "rhs_upd A circles ic bc_grid q b ! ?K p = b ! ?K p"
      using ne by (simp add: rhs_upd_def)
    ultimately show ?thesis by simp
  qed
qed

lemma inj_on_grid_points:
  assumes "valid_grid ic"
  shows "inj_on (\<lambda>p. nat (flat_index ic (fst p) (snd p))) (set (grid_points ic))"
proof (rule inj_onI)
  fix p q
  assume p: "p \<in> set (grid_points ic)" and q: "q \<in> set (grid_points ic)"
    and e: "nat (flat_index ic (fst p) (snd p)) = nat (flat_index ic (fst q) (snd q))"
  from p q have g: "in_grid ic (fst p) (snd p)" "in_grid ic (fst q) (snd q)"
    by (auto simp: set_grid_points)
  from e flat_index_range(1) [OF assms g(1)] flat_index_range(1) [OF assms g(2)]
  have "flat_index ic (fst p) (snd p) = flat_index ic (fst q) (snd q)" by linarith
  from flat_index_inj [OF assms g this] show "p = q" by (simp add: prod_eq_iff)
qed

lemma buildProblem_result:
  assumes v: "valid_grid ic" and len: "int (length b) = x_grid_size ic * y_grid_size ic"
  shows "\<exists>b'. buildProblem A coefficients b circles ic bc_grid =
           Inr (coefficients @
                  concat (map (\<lambda>p. pt_coeffs A circles ic bc_grid (fst p) (snd p))
                            (grid_points ic)), b') \<and>
           length b' = length b \<and>
           (\<forall>i j. in_grid ic i j \<longrightarrow>
              b' ! nat (flat_index ic i j) = pt_rhs A circles ic bc_grid i j (d_of_int A 0))"
proof -
  let ?z = "map (\<lambda>_. d_of_int A 0) b"
  let ?b = "fold (rhs_upd A circles ic bc_grid) (grid_points ic) ?z"
  have "?b ! nat (flat_index ic i j) = pt_rhs A circles ic bc_grid i j (d_of_int A 0)"
    if g: "in_grid ic i j" for i j
  proof -
    have r: "nat (flat_index ic i j) < length b"
      using flat_index_range [OF v g] len by linarith
    have "?b ! nat (flat_index ic (fst (i, j)) (snd (i, j))) =
          pt_rhs A circles ic bc_grid (fst (i, j)) (snd (i, j))
            (?z ! nat (flat_index ic (fst (i, j)) (snd (i, j))))"
      using g r by (intro fold_rhs_upd_at distinct_grid_points inj_on_grid_points [OF v])
        (auto simp: set_grid_points)
    then show ?thesis using r by simp
  qed
  then have "buildProblem A coefficients b circles ic bc_grid =
           Inr (coefficients @
                  concat (map (\<lambda>p. pt_coeffs A circles ic bc_grid (fst p) (snd p))
                            (grid_points ic)), ?b) \<and>
           length ?b = length b \<and>
           (\<forall>i j. in_grid ic i j \<longrightarrow>
              ?b ! nat (flat_index ic i j) = pt_rhs A circles ic bc_grid i j (d_of_int A 0))"
    using buildProblem_fold [OF v len, of A coefficients circles bc_grid] by simp
  then show ?thesis by blast
qed

lemma buildProblem_coeffs:
  assumes v: "valid_grid ic" and len: "int (length b) = x_grid_size ic * y_grid_size ic"
  shows "\<exists>b'. buildProblem A [] b circles ic bc_grid =
           Inr (all_coeffs A circles ic bc_grid, b') \<and>
           length b' = length b \<and>
           (\<forall>i j. in_grid ic i j \<longrightarrow>
              b' ! nat (flat_index ic i j) = pt_rhs A circles ic bc_grid i j (d_of_int A 0))"
  using buildProblem_result [OF v len, of A "[]" circles bc_grid]
  by (simp add: all_coeffs_def)

section \<open>The coefficient list\<close>

lemma nb_coeff_eq:
  "nb_coeff A circles ic bc_grid id0 i j w =
     (if i \<noteq> - 1 \<and> i \<noteq> x_grid_size ic \<and> j \<noteq> - 1 \<and> j \<noteq> y_grid_size ic \<and>
         \<not> pinned A circles ic i j
      then [(id0, flat_index ic i j, w)] else [])"
  by (simp add: nb_coeff_def known_value_def)

lemma nb_coeff_nbr:
  assumes "in_grid ic i j" "q \<in> set (nbrs i j) \<or> q = (i, j)"
  shows "nb_coeff A circles ic bc_grid id0 (fst q) (snd q) w =
     (if unknown A circles ic q then [(id0, flat_index ic (fst q) (snd q), w)] else [])"
proof -
  have "(fst q \<noteq> - 1 \<and> fst q \<noteq> x_grid_size ic \<and> snd q \<noteq> - 1 \<and> snd q \<noteq> y_grid_size ic) =
        in_grid ic (fst q) (snd q)"
    using assms by (auto simp: in_grid_def nbrs_def)
  then show ?thesis
    by (auto simp: nb_coeff_eq unknown_def)
qed

lemma pt_coeffs_in_grid:
  assumes g: "in_grid ic i j"
  shows "pt_coeffs A circles ic bc_grid i j =
     (if pinned A circles ic i j
      then [(flat_index ic i j, flat_index ic i j, d_of_int A 1)]
      else concat (map (\<lambda>q. if unknown A circles ic q
                              then [(flat_index ic i j, flat_index ic (fst q) (snd q),
                                     d_of_int A (- 1))]
                              else []) (nbrs i j)) @
           [(flat_index ic i j, flat_index ic i j, d_of_int A 4)])"
proof -
  have n: "nb_coeff A circles ic bc_grid id0 i' j' w =
     (if unknown A circles ic (i', j') then [(id0, flat_index ic i' j', w)] else [])"
    if "(i', j') \<in> set (nbrs i j) \<or> (i', j') = (i, j)" for i' j' id0 w
    using nb_coeff_nbr [OF g that, of A circles bc_grid id0 w] by simp
  have s: "unknown A circles ic (i, j) = (\<not> pinned A circles ic i j)"
    using g by (simp add: unknown_def)
  show ?thesis
    by (simp add: pt_coeffs_def Let_def n nbrs_def s)
qed

lemma concat_map_if_single:
  "concat (map (\<lambda>q. if P q then [f q] else []) xs) = map f (filter P xs)"
  by (induction xs) auto

lemma mem_pt_coeffs:
  assumes "in_grid ic i j"
  shows "t \<in> set (pt_coeffs A circles ic bc_grid i j) \<longleftrightarrow>
     (pinned A circles ic i j \<and> t = (flat_index ic i j, flat_index ic i j, d_of_int A 1)) \<or>
     (\<not> pinned A circles ic i j \<and>
        (t = (flat_index ic i j, flat_index ic i j, d_of_int A 4) \<or>
         (\<exists>q \<in> set (nbrs i j). unknown A circles ic q \<and>
            t = (flat_index ic i j, flat_index ic (fst q) (snd q), d_of_int A (- 1)))))"
  by (auto simp: pt_coeffs_in_grid [OF assms] split: if_splits)

lemma mem_all_coeffs:
  "t \<in> set (all_coeffs A circles ic bc_grid) \<longleftrightarrow>
     (\<exists>i j. in_grid ic i j \<and> t \<in> set (pt_coeffs A circles ic bc_grid i j))"
  by (auto simp: all_coeffs_def set_grid_points)

lemma pt_coeffs_row:
  assumes "in_grid ic i j" "t \<in> set (pt_coeffs A circles ic bc_grid i j)"
  shows "fst t = flat_index ic i j"
  using assms(2) unfolding mem_pt_coeffs [OF assms(1)] by auto

lemma nbrs_sym: "q \<in> set (nbrs i j) \<Longrightarrow> (i, j) \<in> set (nbrs (fst q) (snd q))"
  by (auto simp: nbrs_def)

lemma nbrs_neq: "q \<in> set (nbrs i j) \<Longrightarrow> q \<noteq> (i, j)"
  by (auto simp: nbrs_def)

lemma off_diagonal_swap:
  assumes v: "valid_grid ic"
    and m: "(r, c, w) \<in> set (all_coeffs A circles ic bc_grid)" and ne: "r \<noteq> c"
  shows "(c, r, w) \<in> set (all_coeffs A circles ic bc_grid)"
proof -
  from m obtain i j where g: "in_grid ic i j"
    and t: "(r, c, w) \<in> set (pt_coeffs A circles ic bc_grid i j)"
    by (auto simp: mem_all_coeffs)
  from t ne obtain q where np: "\<not> pinned A circles ic i j"
    and q: "q \<in> set (nbrs i j)" "unknown A circles ic q"
    and e: "r = flat_index ic i j" "c = flat_index ic (fst q) (snd q)" "w = d_of_int A (- 1)"
    by (auto simp: mem_pt_coeffs [OF g])
  from q(2) have gq: "in_grid ic (fst q) (snd q)" and nq: "\<not> pinned A circles ic (fst q) (snd q)"
    by (simp_all add: unknown_def)
  have "unknown A circles ic (i, j)" using g np by (simp add: unknown_def)
  with nbrs_sym [OF q(1)]
  have "(c, r, w) \<in> set (pt_coeffs A circles ic bc_grid (fst q) (snd q))"
    unfolding mem_pt_coeffs [OF gq] e using nq by force
  with gq show ?thesis by (auto simp: mem_all_coeffs)
qed

lemma coeff_indices:
  assumes v: "valid_grid ic" and m: "(r, c, w) \<in> set (all_coeffs A circles ic bc_grid)"
  shows "(\<exists>i j. in_grid ic i j \<and> r = flat_index ic i j) \<and>
         (\<exists>i j. in_grid ic i j \<and> c = flat_index ic i j)"
proof -
  from m obtain i j where g: "in_grid ic i j"
    and t: "(r, c, w) \<in> set (pt_coeffs A circles ic bc_grid i j)"
    by (auto simp: mem_all_coeffs)
  from t have r: "r = flat_index ic i j"
    by (auto simp: mem_pt_coeffs [OF g])
  from t have "c = flat_index ic i j \<or>
      (\<exists>q. in_grid ic (fst q) (snd q) \<and> c = flat_index ic (fst q) (snd q))"
    by (auto simp: mem_pt_coeffs [OF g] unknown_def)
  with g r show ?thesis by auto
qed

lemma concat_map_single:
  assumes "distinct xs" "x \<in> set xs" "\<And>y. y \<in> set xs \<Longrightarrow> y \<noteq> x \<Longrightarrow> f y = []"
  shows "concat (map f xs) = f x"
  using assms
proof (induction xs)
  case Nil
  then show ?case by simp
next
  case (Cons a xs)
  show ?case
  proof (cases "a = x")
    case True
    then have "\<And>y. y \<in> set xs \<Longrightarrow> f y = []"
      using Cons.prems by auto
    then have "concat (map f xs) = []" by simp
    with True show ?thesis by simp
  next
    case False
    then have "f a = []" using Cons.prems by simp
    moreover have "concat (map f xs) = f x"
      using Cons.prems False by (intro Cons.IH) auto
    ultimately show ?thesis by simp
  qed
qed

lemma row_of_point:
  fixes A :: "('f, 'd) arith"
  assumes v: "valid_grid ic" and g: "in_grid ic i j"
  shows "filter (\<lambda>t. fst t = flat_index ic i j) (all_coeffs A circles ic bc_grid) =
         pt_coeffs A circles ic bc_grid i j"
proof -
  let ?P = "\<lambda>t :: 'd triplet. fst t = flat_index ic i j"
  let ?f = "\<lambda>p. filter ?P (pt_coeffs A circles ic bc_grid (fst p) (snd p))"
  have other: "?f p = []" if p: "p \<in> set (grid_points ic)" and ne: "p \<noteq> (i, j)" for p
  proof -
    from p have gp: "in_grid ic (fst p) (snd p)" by (auto simp: set_grid_points)
    have "flat_index ic (fst p) (snd p) \<noteq> flat_index ic i j"
      using flat_index_eq_iff [OF v gp, of "(i, j)"] g ne by simp
    then show ?thesis
      by (auto simp: filter_empty_conv mem_pt_coeffs [OF gp])
  qed
  have "filter ?P (all_coeffs A circles ic bc_grid) = concat (map ?f (grid_points ic))"
    by (simp add: all_coeffs_def filter_concat comp_def)
  also have "\<dots> = ?f (i, j)"
    using g other by (intro concat_map_single distinct_grid_points) (auto simp: set_grid_points)
  also have "\<dots> = pt_coeffs A circles ic bc_grid i j"
    by (auto simp: filter_id_conv mem_pt_coeffs [OF g])
  finally show ?thesis .
qed

lemma distinct_concat_map_disjoint:
  assumes "distinct xs" "\<And>x. x \<in> set xs \<Longrightarrow> distinct (f x)"
    and "\<And>x y. x \<in> set xs \<Longrightarrow> y \<in> set xs \<Longrightarrow> x \<noteq> y \<Longrightarrow> set (f x) \<inter> set (f y) = {}"
  shows "distinct (concat (map f xs))"
  using assms
proof (induction xs)
  case Nil
  then show ?case by simp
next
  case (Cons a xs)
  have "set (f a) \<inter> set (f y) = {}" if "y \<in> set xs" for y
    using Cons.prems(3) [of a y] Cons.prems(1) that by auto
  moreover have "distinct (concat (map f xs))"
    using Cons.prems by (intro Cons.IH) auto
  ultimately show ?case
    using Cons.prems(2) [of a] by auto
qed

lemma pt_keys:
  assumes g: "in_grid ic i j"
  shows "map (\<lambda>t. (fst t, fst (snd t))) (pt_coeffs A circles ic bc_grid i j) =
     map (\<lambda>q. (flat_index ic i j, flat_index ic (fst q) (snd q)))
       (if pinned A circles ic i j then [(i, j)]
        else filter (unknown A circles ic) (nbrs i j) @ [(i, j)])"
  by (simp add: pt_coeffs_in_grid [OF g] concat_map_if_single comp_def)

lemma distinct_pt_keys:
  assumes v: "valid_grid ic" and g: "in_grid ic i j"
  shows "distinct (map (\<lambda>t. (fst t, fst (snd t))) (pt_coeffs A circles ic bc_grid i j))"
proof -
  let ?qs = "if pinned A circles ic i j then [(i, j)]
             else filter (unknown A circles ic) (nbrs i j) @ [(i, j)]"
  have d: "distinct ?qs"
    by (auto simp: nbrs_def)
  have gq: "in_grid ic (fst q) (snd q)" if "q \<in> set ?qs" for q
    using that g by (auto simp: unknown_def split: if_splits)
  have "inj_on (\<lambda>q. (flat_index ic i j, flat_index ic (fst q) (snd q))) (set ?qs)"
  proof (rule inj_onI)
    fix p q
    assume "p \<in> set ?qs" "q \<in> set ?qs"
      and "(flat_index ic i j, flat_index ic (fst p) (snd p)) =
           (flat_index ic i j, flat_index ic (fst q) (snd q))"
    then show "p = q"
      using flat_index_eq_iff [OF v gq gq, of p q] by simp
  qed
  with d show ?thesis
    unfolding pt_keys [OF g] by (simp only: distinct_map simp_thms)
qed

lemma distinct_keys:
  assumes v: "valid_grid ic"
  shows "distinct (map (\<lambda>t. (fst t, fst (snd t))) (all_coeffs A circles ic bc_grid))"
proof -
  let ?f = "\<lambda>p. map (\<lambda>t. (fst t, fst (snd t))) (pt_coeffs A circles ic bc_grid (fst p) (snd p))"
  have rows: "fst k = flat_index ic (fst p) (snd p)"
    if p: "p \<in> set (grid_points ic)" and k: "k \<in> set (?f p)" for p k
  proof -
    from p have g: "in_grid ic (fst p) (snd p)" by (auto simp: set_grid_points)
    from k obtain t where "t \<in> set (pt_coeffs A circles ic bc_grid (fst p) (snd p))"
      and "k = (fst t, fst (snd t))" by auto
    with pt_coeffs_row [OF g] show ?thesis by simp
  qed
  have "distinct (concat (map ?f (grid_points ic)))"
  proof (rule distinct_concat_map_disjoint [OF distinct_grid_points])
    fix p assume "p \<in> set (grid_points ic)"
    then have "in_grid ic (fst p) (snd p)" by (auto simp: set_grid_points)
    then show "distinct (?f p)"
      by (rule distinct_pt_keys [OF v])
  next
    fix p q assume p: "p \<in> set (grid_points ic)" and q: "q \<in> set (grid_points ic)"
      and ne: "p \<noteq> q"
    from p q have "in_grid ic (fst p) (snd p)" "in_grid ic (fst q) (snd q)"
      by (auto simp: set_grid_points)
    then have "flat_index ic (fst p) (snd p) \<noteq> flat_index ic (fst q) (snd q)"
      using flat_index_eq_iff [OF v, of p q] ne by simp
    then have "k \<notin> set (?f q)" if "k \<in> set (?f p)" for k
      using rows [OF p that] rows [OF q, of k] by metis
    then show "set (?f p) \<inter> set (?f q) = {}"
      by blast
  qed
  then show ?thesis
    by (simp add: all_coeffs_def map_concat comp_def)
qed

lemma triplet_filter_conv:
  "filter (\<lambda>(r, c, w). P r c w) xs = filter (\<lambda>t. P (fst t) (fst (snd t)) (snd (snd t))) xs"
  by (simp add: case_prod_unfold)

section \<open>The reshape loops\<close>

lemma fold_upd_nth:
  assumes "distinct ks" "\<forall>k \<in> set ks. 0 \<le> k" "m < length xs"
  shows "fold (\<lambda>k xs. xs[nat k := f k]) ks xs ! m =
         (if int m \<in> set ks then f (int m) else xs ! m)"
  using assms
proof (induction ks arbitrary: xs)
  case Nil
  then show ?case by simp
next
  case (Cons k ks)
  have "fold (\<lambda>k xs. xs[nat k := f k]) ks (xs[nat k := f k]) ! m =
        (if int m \<in> set ks then f (int m) else xs[nat k := f k] ! m)"
    using Cons.prems by (intro Cons.IH) auto
  moreover have "xs[nat k := f k] ! m = (if int m = k then f k else xs ! m)"
    using Cons.prems by (auto simp: nth_list_update)
  ultimately show ?case
    using Cons.prems by auto
qed

lemma length_fold_upd [simp]: "length (fold (\<lambda>k xs. xs[nat k := f k]) ks xs) = length xs"
  by (induction ks arbitrary: xs) auto

lemma fold_fill:
  assumes "int (length xs) = n"
  shows "fold (\<lambda>k xs. xs[nat k := f k]) [0..n - 1] xs = map f [0..n - 1]"
proof (rule nth_equalityI)
  show "length (fold (\<lambda>k xs. xs[nat k := f k]) [0..n - 1] xs) = length (map f [0..n - 1])"
    using assms by simp
next
  fix m assume "m < length (fold (\<lambda>k xs. xs[nat k := f k]) [0..n - 1] xs)"
  then have m: "m < length xs" by simp
  then have "int m \<in> set [0..n - 1]" using assms by auto
  then show "fold (\<lambda>k xs. xs[nat k := f k]) [0..n - 1] xs ! m = map f [0..n - 1] ! m"
    using m assms by (simp add: fold_upd_nth)
qed

lemma fold_row_upd:
  "nat j < length m \<Longrightarrow>
   fold (\<lambda>i m. m[nat j := (m ! nat j)[nat i := f i]]) ks m =
   m[nat j := fold (\<lambda>i row. row[nat i := f i]) ks (m ! nat j)]"
  by (induction ks arbitrary: m) auto

lemma result_body_eq:
  assumes "0 \<le> flat_index ic i j" "flat_index ic i j < int (length x)"
    and "0 \<le> j" "j < int (length m)" "0 \<le> i" "i < int (length (m ! nat j))"
  shows "result_body ic x j i m =
         Inr (m[nat j := (m ! nat j)[nat i := x ! nat (flat_index ic i j)]])"
  using assms
  by (simp add: result_body_def mat_assign_def vec_get_def vec_assign_def bind_err_def)

lemma grid_shape_update:
  "grid_shape ic m \<Longrightarrow> int (length row) = x_grid_size ic \<Longrightarrow> grid_shape ic (m[k := row])"
  by (auto simp: grid_shape_def dest!: set_update_subset_insert [THEN subsetD])

lemma reshape_inner:
  assumes v: "valid_grid ic" and j: "0 \<le> j" "j < y_grid_size ic"
    and len: "int (length x) = x_grid_size ic * y_grid_size ic"
    and sh: "grid_shape ic m"
  shows "for_loop 0 (x_grid_size ic) (result_body ic x j) m =
           Inr (m[nat j := map (\<lambda>i. x ! nat (flat_index ic i j)) [0..x_grid_size ic - 1]]) \<and>
         grid_shape ic (m[nat j := map (\<lambda>i. x ! nat (flat_index ic i j)) [0..x_grid_size ic - 1]])"
proof -
  let ?g = "\<lambda>i m. m[nat j := (m ! nat j)[nat i := x ! nat (flat_index ic i j)]]"
  have step: "result_body ic x j i t = Inr (?g i t) \<and> grid_shape ic (?g i t)"
    if i: "0 \<le> i" "i < x_grid_size ic" and t: "grid_shape ic t" for i t
  proof -
    from i j have g: "in_grid ic i j" by (simp add: in_grid_def)
    from t j have r: "nat j < length t" "int (length (t ! nat j)) = x_grid_size ic"
      by (auto simp: grid_shape_def)
    have "result_body ic x j i t = Inr (?g i t)"
      using flat_index_range [OF v g] len i j r by (intro result_body_eq) auto
    moreover have "grid_shape ic (?g i t)"
      using t r by (intro grid_shape_update) auto
    ultimately show ?thesis by simp
  qed
  have "for_loop 0 (x_grid_size ic) (result_body ic x j) m =
          Inr (fold ?g [0..x_grid_size ic - 1] m)"
    using for_loop_fold [where Inv = "grid_shape ic" and i = 0 and n = "x_grid_size ic"
        and s = m and body = "result_body ic x j" and g = ?g] step sh
    by blast
  moreover from sh j have r: "nat j < length m" "int (length (m ! nat j)) = x_grid_size ic"
    by (auto simp: grid_shape_def)
  ultimately have "for_loop 0 (x_grid_size ic) (result_body ic x j) m =
      Inr (m[nat j := map (\<lambda>i. x ! nat (flat_index ic i j)) [0..x_grid_size ic - 1]])"
    by (simp add: fold_row_upd fold_fill)
  moreover have "grid_shape ic
      (m[nat j := map (\<lambda>i. x ! nat (flat_index ic i j)) [0..x_grid_size ic - 1]])"
    using sh v by (intro grid_shape_update) (auto simp: valid_grid_def)
  ultimately show ?thesis by simp
qed

lemma reshape_result_eq:
  assumes v: "valid_grid ic"
    and len: "int (length x) = x_grid_size ic * y_grid_size ic"
    and sh: "grid_shape ic m"
  shows "reshape_result ic x m =
     Inr (map (\<lambda>j. map (\<lambda>i. x ! nat (flat_index ic i j)) [0..x_grid_size ic - 1])
            [0..y_grid_size ic - 1])"
proof -
  let ?F = "\<lambda>j. map (\<lambda>i. x ! nat (flat_index ic i j)) [0..x_grid_size ic - 1]"
  have "for_loop 0 (y_grid_size ic)
          (\<lambda>j. for_loop 0 (x_grid_size ic) (result_body ic x j)) m =
        Inr (fold (\<lambda>j m. m[nat j := ?F j]) [0..y_grid_size ic - 1] m)"
    using for_loop_fold [where Inv = "grid_shape ic" and i = 0 and n = "y_grid_size ic"
        and s = m and body = "\<lambda>j. for_loop 0 (x_grid_size ic) (result_body ic x j)"
        and g = "\<lambda>j m. m[nat j := ?F j]"] reshape_inner [OF v _ _ len] sh
    by blast
  then show ?thesis
    using sh by (simp add: reshape_result_def fold_fill grid_shape_def)
qed

lemma upto_map_int: "0 \<le> n \<Longrightarrow> [0..n - 1] = map int [0..<nat n]"
  by (rule nth_equalityI) simp_all

lemma map_nth_offset: "a + n \<le> length x \<Longrightarrow> map (\<lambda>i. x ! (i + a)) [0..<n] = take n (drop a x)"
  by (rule nth_equalityI) (simp_all add: add.commute)

lemma concat_rows_take:
  "m * n \<le> length x \<Longrightarrow>
   concat (map (\<lambda>j. map (\<lambda>i. x ! (i + j * n)) [0..<n]) [0..<m]) = take (m * n) x"
proof (induction m)
  case 0
  then show ?case by simp
next
  case (Suc m)
  then have "m * n + n \<le> length x" by simp
  then have "map (\<lambda>i. x ! (i + m * n)) [0..<n] = take n (drop (m * n) x)"
    by (rule map_nth_offset)
  moreover have "concat (map (\<lambda>j. map (\<lambda>i. x ! (i + j * n)) [0..<n]) [0..<m]) = take (m * n) x"
    using Suc by simp
  moreover have "take (m * n + n) x = take (m * n) x @ take n (drop (m * n) x)"
    by (rule take_add)
  ultimately show ?case
    by (simp add: add.commute [of n])
qed

lemma reshaped_rows_nat:
  assumes v: "valid_grid ic"
  shows "map (\<lambda>j. map (\<lambda>i. x ! nat (flat_index ic i j)) [0..x_grid_size ic - 1])
           [0..y_grid_size ic - 1] =
         map (\<lambda>j. map (\<lambda>i. x ! (i + j * nat (x_grid_size ic))) [0..<nat (x_grid_size ic)])
           [0..<nat (y_grid_size ic)]"
proof -
  from v have p: "0 \<le> x_grid_size ic" "0 \<le> y_grid_size ic" by (simp_all add: valid_grid_def)
  have "nat (flat_index ic (int i) (int j)) = i + j * nat (x_grid_size ic)"
    if "i < nat (x_grid_size ic)" "j < nat (y_grid_size ic)" for i j
  proof -
    from that have "int i < x_grid_size ic" "int j < y_grid_size ic" by linarith+
    then have g: "in_grid ic (int i) (int j)" by (simp add: in_grid_def)
    have "int i + int j * x_grid_size ic = int (i + j * nat (x_grid_size ic))"
      using p by simp
    then show ?thesis
      unfolding flat_index_in_grid [OF v g] by (simp only: nat_int)
  qed
  then show ?thesis
    by (simp add: upto_map_int p comp_def)
qed

lemma length_concat_uniform:
  "\<forall>row \<in> set g. length row = n \<Longrightarrow> length (concat g) = length g * n"
  by (induction g) auto

lemma length_concat_shape:
  assumes s: "grid_shape ic g"
  shows "int (length (concat g)) = x_grid_size ic * y_grid_size ic"
proof (cases g)
  case Nil
  with s show ?thesis by (simp add: grid_shape_def)
next
  case (Cons r rs)
  with s have nx: "x_grid_size ic = int (length r)" by (simp add: grid_shape_def)
  from s have ny: "y_grid_size ic = int (length g)" by (simp add: grid_shape_def)
  have "\<forall>row \<in> set g. length row = length r"
    using s nx by (auto simp: grid_shape_def)
  then have "length (concat g) = length g * length r"
    by (rule length_concat_uniform)
  then show ?thesis
    by (simp add: nx ny)
qed

section \<open>Two runs of the model\<close>

lemma valid_grid2: "valid_grid grid2"
  by (simp add: valid_grid_def grid2_def)

lemma build_grid2_example:
  "buildProblem exact_arith [] [9, 9, 9, 9] [disc 1 1 (1/2) 5] grid2 box1234 =
   Inr ([(0, 1, - 1), (0, 2, - 1), (0, 0, 4),
         (1, 0, - 1), (1, 1, 4),
         (2, 0, - 1), (2, 2, 4),
         (3, 3, 1)], [4, 10, 10, 5])"
  by (simp add: buildProblem_def for_loop.simps [of 0] for_loop.simps [of 1] for_loop.simps [of 2]
      point_body_def insertCoefficient_def circularConditionsCheck_def exact_arith_def
      flat_index_def wrap32_def grid2_def disc_def box1234_def Let_def bind_err_def
      vec_sub_assign_def vec_get_def vec_assign_def)

lemma reshape_grid2_example:
  "reshape_result grid2 [10, 20, 30, 40 :: int] [[0, 0], [0, 0]] = Inr [[10, 20], [30, 40]]"
  by (simp add: reshape_result_def for_loop.simps [of 0] for_loop.simps [of 1]
      for_loop.simps [of 2] result_body_def mat_assign_def flat_index_def wrap32_def grid2_def
      bind_err_def vec_get_def vec_assign_def)

lemma single_cell:
  assumes "x_grid_size ic = 1" "y_grid_size ic = 1" "length b = 1"
  shows "buildProblem A [] b [] ic bc_grid =
     Inr ([(0, 0, d_of_int A 4)],
          [d_sub A (d_sub A (d_sub A (d_sub A (d_of_int A 0)
             (d_mul A (d_of_int A (- 1)) (d_of_float A (bc_left bc_grid))))
             (d_mul A (d_of_int A (- 1)) (d_of_float A (bc_right bc_grid))))
             (d_mul A (d_of_int A (- 1)) (d_of_float A (bc_up bc_grid))))
             (d_mul A (d_of_int A (- 1)) (d_of_float A (bc_down bc_grid)))])"
proof -
  from assms(3) obtain x where b: "b = [x]"
    by (cases b) auto
  have f: "flat_index ic 0 0 = 0"
    by (simp add: flat_index_def wrap32_def)
  show ?thesis
    using assms(1,2)
    by (simp add: buildProblem_def b for_loop.simps [of 0] for_loop.simps [of 1] point_body_def
        insertCoefficient_def f Let_def bind_err_def vec_sub_assign_def vec_get_def vec_assign_def)
qed

section \<open>The claims\<close>

text \<open>
  Claim C1. Take a valid grid, a right-hand side of length \<open>nx * ny\<close>, a non-empty list of
  inclusions and a grid point \<open>(i, j)\<close>, \<open>0 \<le> i < nx\<close>, \<open>0 \<le> j < ny\<close>, that the classifier
  reports inside the inclusion \<open>k\<close>. Then the loop body at this point appends the single
  coefficient \<open>(id, id, 1.0)\<close> with \<open>id = i + j * nx\<close> and assigns the voltage of inclusion
  \<open>k\<close> to \<open>b(id)\<close>, and does nothing else: no call of \<^verbatim>\<open>insertCoefficient\<close> is made.
  In the assembled system the coefficients of row \<open>id\<close> are exactly this one, and
  \<open>rhs[id]\<close> is the voltage of inclusion \<open>k\<close>.
\<close>

theorem pinned_point_row:
  assumes v: "valid_grid ic" and len: "int (length b) = x_grid_size ic * y_grid_size ic"
    and ne: "circles \<noteq> []" and g: "in_grid ic i j"
    and chk: "circularConditionsCheck A i j circles ic = (True, k)"
  shows "point_body A circles ic bc_grid j i (coeffs, b) =
           Inr (coeffs @ [(i + j * x_grid_size ic, i + j * x_grid_size ic, d_of_int A 1)],
                b[nat (i + j * x_grid_size ic) := d_of_float A (voltage (circles ! nat k))]) \<and>
         (\<exists>cs b'. buildProblem A [] b circles ic bc_grid = Inr (cs, b') \<and>
            filter (\<lambda>(r, c, w). r = i + j * x_grid_size ic) cs =
              [(i + j * x_grid_size ic, i + j * x_grid_size ic, d_of_int A 1)] \<and>
            b' ! nat (i + j * x_grid_size ic) = d_of_float A (voltage (circles ! nat k)))"
proof -
  have p: "pinned A circles ic i j" using ne chk by (simp add: pinned_def)
  have f: "flat_index ic i j = i + j * x_grid_size ic"
    by (rule flat_index_in_grid [OF v g])
  have pc: "pt_coeffs A circles ic bc_grid i j =
      [(i + j * x_grid_size ic, i + j * x_grid_size ic, d_of_int A 1)]"
    using p f by (simp add: pt_coeffs_def Let_def)
  have pr: "pt_rhs A circles ic bc_grid i j x = d_of_float A (voltage (circles ! nat k))" for x
    using p chk by (simp add: pt_rhs_def)
  have "point_body A circles ic bc_grid j i (coeffs, b) =
          Inr (pt_step A circles ic bc_grid j i (coeffs, b))"
    using flat_index_range [OF v g] len by (intro point_body_eq) simp_all
  then have 1: "point_body A circles ic bc_grid j i (coeffs, b) =
           Inr (coeffs @ [(i + j * x_grid_size ic, i + j * x_grid_size ic, d_of_int A 1)],
                b[nat (i + j * x_grid_size ic) := d_of_float A (voltage (circles ! nat k))])"
    by (simp add: pt_step_def pc pr f)
  obtain b' where r: "buildProblem A [] b circles ic bc_grid =
      Inr (all_coeffs A circles ic bc_grid, b')"
    and rhs: "\<forall>i j. in_grid ic i j \<longrightarrow>
      b' ! nat (flat_index ic i j) = pt_rhs A circles ic bc_grid i j (d_of_int A 0)"
    using buildProblem_coeffs [OF v len, of A circles bc_grid] by blast
  have "filter (\<lambda>(r, c, w). r = i + j * x_grid_size ic) (all_coeffs A circles ic bc_grid) =
      [(i + j * x_grid_size ic, i + j * x_grid_size ic, d_of_int A 1)]"
    using row_of_point [OF v g, of A circles bc_grid] by (simp add: triplet_filter_conv f pc)
  moreover have "b' ! nat (i + j * x_grid_size ic) = d_of_float A (voltage (circles ! nat k))"
    using rhs g by (simp add: pr f [symmetric])
  ultimately show ?thesis using 1 r by simp
qed

theorem pinned_point_row_witness:
  "valid_grid grid2 \<and> in_grid grid2 1 1 \<and>
   circularConditionsCheck exact_arith 1 1 [disc 1 1 (1/2) 5] grid2 = (True, 0) \<and>
   point_body exact_arith [disc 1 1 (1/2) 5] grid2 box1234 1 1 ([], [0, 0, 0, 0]) =
     Inr ([(3, 3, 1)], [0, 0, 0, 5]) \<and>
   (\<exists>cs b'. buildProblem exact_arith [] [0, 0, 0, 0] [disc 1 1 (1/2) 5] grid2 box1234 = Inr (cs, b') \<and>
      filter (\<lambda>(r, c, w). r = 3) cs = [(3, 3, 1)] \<and> b' ! 3 = 5)"
  using pinned_point_row [of grid2 "[0, 0, 0, 0]" "[disc 1 1 (1/2) 5]" 1 1 exact_arith 0 box1234 "[]"]
  by (simp add: valid_grid_def in_grid_def grid2_def disc_def circularConditionsCheck_def
      exact_arith_def wrap32_def)

text \<open>
  Claim C2. For a centre \<open>id0\<close> inside the right-hand side and a neighbour reference one
  step outside the grid, \<^verbatim>\<open>insertCoefficient\<close> leaves the coefficient list as it is and
  subtracts \<open>w\<close> times the voltage of that side from \<open>b(id0)\<close>: the left voltage for
  \<open>ni = -1\<close>, the right voltage for \<open>ni = nx\<close>, the up voltage for \<open>nj = -1\<close> and the down
  voltage for \<open>nj = ny\<close>, the tests being made in this order. Nothing is assumed about the
  inclusions, so the rule applies also where the classifier puts the neighbour inside an
  inclusion: it is so in the example after the theorem.
\<close>

theorem box_edge_folding:
  assumes "0 \<le> id0" "id0 < int (length b)"
  shows "insertCoefficient A id0 (- 1) nj w coeffs b circles ic bc_grid =
           Inr (coeffs, b[nat id0 := d_sub A (b ! nat id0) (d_mul A w (d_of_float A (bc_left bc_grid)))]) \<and>
         (x_grid_size ic \<noteq> - 1 \<longrightarrow>
          insertCoefficient A id0 (x_grid_size ic) nj w coeffs b circles ic bc_grid =
           Inr (coeffs, b[nat id0 := d_sub A (b ! nat id0) (d_mul A w (d_of_float A (bc_right bc_grid)))])) \<and>
         (ni \<noteq> - 1 \<and> ni \<noteq> x_grid_size ic \<longrightarrow>
          insertCoefficient A id0 ni (- 1) w coeffs b circles ic bc_grid =
           Inr (coeffs, b[nat id0 := d_sub A (b ! nat id0) (d_mul A w (d_of_float A (bc_up bc_grid)))])) \<and>
         (ni \<noteq> - 1 \<and> ni \<noteq> x_grid_size ic \<and> y_grid_size ic \<noteq> - 1 \<longrightarrow>
          insertCoefficient A id0 ni (y_grid_size ic) w coeffs b circles ic bc_grid =
           Inr (coeffs, b[nat id0 := d_sub A (b ! nat id0) (d_mul A w (d_of_float A (bc_down bc_grid)))]))"
  using assms
  by (simp add: insertCoefficient_def Let_def vec_sub_assign_ok bind_err_def)

theorem box_edge_folding_witness:
  "fst (circularConditionsCheck exact_arith (- 1) 0 [disc (- 1) 0 1 7] grid2) \<and>
   insertCoefficient exact_arith 0 (- 1) 0 (- 1) [] [10] [disc (- 1) 0 1 7] grid2 box1234 =
     Inr ([], [13]) \<and>
   insertCoefficient exact_arith 0 2 0 (- 1) [] [10] [disc (- 1) 0 1 7] grid2 box1234 =
     Inr ([], [14]) \<and>
   insertCoefficient exact_arith 0 0 (- 1) (- 1) [] [10] [disc (- 1) 0 1 7] grid2 box1234 =
     Inr ([], [11]) \<and>
   insertCoefficient exact_arith 0 0 2 (- 1) [] [10] [disc (- 1) 0 1 7] grid2 box1234 =
     Inr ([], [12])"
  using box_edge_folding [of 0 "[10]" exact_arith 0 "- 1" "[]" "[disc (- 1) 0 1 7]" grid2 box1234 0]
  by (simp add: circularConditionsCheck_def exact_arith_def wrap32_def grid2_def disc_def
      box1234_def)

text \<open>
  Claim C3. For every valid grid, with any extents, boundary voltages and inclusions, the
  assembly returns a coefficient list that is symmetric off the diagonal: for \<open>r \<noteq> c\<close>,
  \<open>(r, c, w)\<close> is in the list if and only if \<open>(c, r, w)\<close> is.
\<close>

theorem coefficients_symmetric:
  assumes v: "valid_grid ic" and len: "int (length b) = x_grid_size ic * y_grid_size ic"
  shows "\<exists>cs b'. buildProblem A [] b circles ic bc_grid = Inr (cs, b') \<and>
           (\<forall>r c w. r \<noteq> c \<longrightarrow> ((r, c, w) \<in> set cs \<longleftrightarrow> (c, r, w) \<in> set cs))"
proof -
  obtain b' where r: "buildProblem A [] b circles ic bc_grid =
      Inr (all_coeffs A circles ic bc_grid, b')"
    using buildProblem_coeffs [OF v len, of A circles bc_grid] by blast
  have "(r, c, w) \<in> set (all_coeffs A circles ic bc_grid) \<longleftrightarrow>
        (c, r, w) \<in> set (all_coeffs A circles ic bc_grid)" if "r \<noteq> c" for r c w
    using off_diagonal_swap [OF v, of r c w A circles bc_grid]
      off_diagonal_swap [OF v, of c r w A circles bc_grid] that by blast
  with r show ?thesis by blast
qed

theorem coefficients_symmetric_witness:
  "valid_grid grid2 \<and>
   (\<exists>cs b'. buildProblem exact_arith [] [9, 9, 9, 9] [disc 1 1 (1/2) 5] grid2 box1234 = Inr (cs, b') \<and>
      (0, 1, - 1) \<in> set cs \<and> (1, 0, - 1) \<in> set cs \<and>
      (\<forall>r c w. r \<noteq> c \<longrightarrow> ((r, c, w) \<in> set cs \<longleftrightarrow> (c, r, w) \<in> set cs)))"
  using coefficients_symmetric [of grid2 "[9, 9, 9, 9]" exact_arith "[disc 1 1 (1/2) 5]" box1234]
    valid_grid2
  by (simp add: build_grid2_example) (simp add: grid2_def)

text \<open>
  Claim C4. \<^verbatim>\<open>circularConditionsCheck\<close> computes what the specification says: with the
  coordinates \<open>x = xmin + i*dx\<close>, \<open>y = ymin + j*dy\<close>, \<open>dx = (xmax-xmin)/nx\<close>,
  \<open>dy = (ymax-ymin)/ny\<close> it returns \<open>(true, k)\<close> for the first index \<open>k\<close> of the list with
  \<open>(x-x_k)^2 + (y-y_k)^2 <= radius_k^2\<close>, and \<open>(false, 0)\<close> when no inclusion matches. The
  two extents \<open>xmax-xmin\<close> and \<open>ymax-ymin\<close>, which the source computes in the type
  \<^verbatim>\<open>int\<close>, are assumed to fit that type. The example has a point on the boundary of
  the first of two inclusions that both contain it, and a point in neither.
\<close>

theorem classifier_first_match:
  assumes "int32_range (x_max ic - x_min ic)" "int32_range (y_max ic - y_min ic)"
  shows "circularConditionsCheck A i j circles ic =
     (case spec_classify A i j circles ic of
        Some k \<Rightarrow> (True, int k)
      | None \<Rightarrow> (False, 0))"
proof -
  have w: "wrap32 (x_max ic - x_min ic) = x_max ic - x_min ic"
    "wrap32 (y_max ic - y_min ic) = y_max ic - y_min ic"
    using assms by (simp_all add: int32_range_def wrap32_id)
  show ?thesis
    unfolding circularConditionsCheck_def spec_classify_def Let_def w
    by (subst circle_loop_first) (simp add: spec_inside_def Let_def split: list.split)
qed

theorem classifier_first_match_witness:
  "int32_range (x_max grid2 - x_min grid2) \<and> int32_range (y_max grid2 - y_min grid2) \<and>
   spec_classify exact_arith 1 1 [disc 1 2 1 5, disc 1 1 (1/2) 6] grid2 = Some 0 \<and>
   circularConditionsCheck exact_arith 1 1 [disc 1 2 1 5, disc 1 1 (1/2) 6] grid2 = (True, 0) \<and>
   spec_classify exact_arith 0 0 [disc 1 2 1 5, disc 1 1 (1/2) 6] grid2 = None \<and>
   circularConditionsCheck exact_arith 0 0 [disc 1 2 1 5, disc 1 1 (1/2) 6] grid2 = (False, 0)"
  using classifier_first_match [of grid2 exact_arith 1 1 "[disc 1 2 1 5, disc 1 1 (1/2) 6]"]
    classifier_first_match [of grid2 exact_arith 0 0 "[disc 1 2 1 5, disc 1 1 (1/2) 6]"]
  by (simp add: int32_range_def spec_classify_def spec_inside_def exact_arith_def grid2_def
      disc_def)

text \<open>
  Claim C5. On a 1 by 1 grid without inclusions, whatever the extents and the boundary
  voltages, the assembly returns the one coefficient \<open>(0, 0, 4)\<close> and the right-hand side
  \<open>[left + right + up + down]\<close>. The source reaches the sum by subtracting \<open>-1 * v\<close> four
  times from zero: the first statement is for any arithmetic in which subtracting
  \<open>-1 * v\<close> is adding \<open>v\<close> (the sum is then taken from the left, starting at zero), the
  second one for exact arithmetic.
\<close>

theorem single_cell_system:
  assumes "x_grid_size ic = 1" "y_grid_size ic = 1" "length b = 1" "length b' = 1"
    and "\<forall>a x. d_sub A a (d_mul A (d_of_int A (- 1)) x) = d_add A a x"
  shows "buildProblem A [] b [] ic bc_grid =
           Inr ([(0, 0, d_of_int A 4)],
                [d_add A (d_add A (d_add A (d_add A (d_of_int A 0)
                   (d_of_float A (bc_left bc_grid))) (d_of_float A (bc_right bc_grid)))
                   (d_of_float A (bc_up bc_grid))) (d_of_float A (bc_down bc_grid))]) \<and>
         buildProblem exact_arith [] b' [] ic bc_grid' =
           Inr ([(0, 0, 4)],
                [bc_left bc_grid' + bc_right bc_grid' + bc_up bc_grid' + bc_down bc_grid'])"
  using assms(5)
  by (simp add: single_cell [OF assms(1,2,3)] single_cell [OF assms(1,2,4)] exact_arith_def)

theorem single_cell_system_witness:
  "(\<forall>a x. d_sub exact_arith a (d_mul exact_arith (d_of_int exact_arith (- 1)) x) =
      d_add exact_arith a x) \<and>
   buildProblem exact_arith [] [9] [] grid1 box1234 = Inr ([(0, 0, 4)], [10])"
  using single_cell_system [of grid1 "[9]" "[9]" exact_arith box1234 box1234]
  by (simp add: grid1_def exact_arith_def box1234_def)

text \<open>
  Claim C6. Take a valid grid and a grid point \<open>(i, j)\<close> that is not pinned by an inclusion.
  The call for the point itself, with weight 4, takes the last branch of
  \<^verbatim>\<open>insertCoefficient\<close>: it appends \<open>(id0, i + j * nx, 4)\<close> and leaves the right-hand
  side alone. In the assembled system the row \<open>id = i + j * nx\<close> has exactly one diagonal
  coefficient, \<open>(id, id, 4)\<close>, and at most four other coefficients, each of value \<open>-1\<close>; so
  for every absolute value \<open>nrm\<close> with \<open>nrm (-1) = 1\<close> and \<open>nrm 4 = 4\<close> the absolute values of
  the off-diagonal coefficients of the row sum to at most that of the diagonal one.
\<close>

theorem unpinned_point_row:
  fixes A :: "('f, 'd) arith" and nrm :: "'d \<Rightarrow> real"
  assumes v: "valid_grid ic" and len: "int (length b) = x_grid_size ic * y_grid_size ic"
    and g: "in_grid ic i j"
    and np: "\<not> (circles \<noteq> [] \<and> fst (circularConditionsCheck A i j circles ic))"
    and nrm: "nrm (d_of_int A (- 1)) = 1" "nrm (d_of_int A 4) = 4"
  shows "insertCoefficient A id0 i j (d_of_int A 4) coeffs b0 circles ic bc_grid =
           Inr (coeffs @ [(id0, i + j * x_grid_size ic, d_of_int A 4)], b0) \<and>
         (\<exists>cs b'. buildProblem A [] b circles ic bc_grid = Inr (cs, b') \<and>
            filter (\<lambda>(r, c, w). r = i + j * x_grid_size ic \<and> c = i + j * x_grid_size ic) cs =
              [(i + j * x_grid_size ic, i + j * x_grid_size ic, d_of_int A 4)] \<and>
            length (filter (\<lambda>(r, c, w). r = i + j * x_grid_size ic \<and> c \<noteq> i + j * x_grid_size ic) cs)
              \<le> 4 \<and>
            (\<forall>(r, c, w) \<in> set cs.
               r = i + j * x_grid_size ic \<and> c \<noteq> i + j * x_grid_size ic \<longrightarrow> w = d_of_int A (- 1)) \<and>
            (\<Sum>(r, c, w) \<leftarrow>
               filter (\<lambda>(r, c, w). r = i + j * x_grid_size ic \<and> c \<noteq> i + j * x_grid_size ic) cs.
               nrm w) \<le> nrm (d_of_int A 4))"
proof -
  let ?id = "i + j * x_grid_size ic"
  let ?cs = "all_coeffs A circles ic bc_grid"
  let ?qs = "filter (unknown A circles ic) (nbrs i j)"
  let ?off = "map (\<lambda>q. (?id, flat_index ic (fst q) (snd q), d_of_int A (- 1))) ?qs"
  have f: "flat_index ic i j = ?id"
    by (rule flat_index_in_grid [OF v g])
  have p: "\<not> pinned A circles ic i j" using np by (simp add: pinned_def)
  have 1: "insertCoefficient A id0 i j (d_of_int A 4) coeffs b0 circles ic bc_grid =
           Inr (coeffs @ [(id0, ?id, d_of_int A 4)], b0)"
    using insertCoefficient_emit [OF _ _ _ _ np, of id0 "d_of_int A 4" coeffs b0 bc_grid] g f
    by (simp add: in_grid_def)
  obtain b' where r: "buildProblem A [] b circles ic bc_grid = Inr (?cs, b')"
    using buildProblem_coeffs [OF v len, of A circles bc_grid] by blast
  have row: "filter (\<lambda>t. fst t = ?id) ?cs = ?off @ [(?id, ?id, d_of_int A 4)]"
    using row_of_point [OF v g, of A circles bc_grid] p
    by (simp add: f pt_coeffs_in_grid [OF g] concat_map_if_single)
  have qne: "flat_index ic (fst q) (snd q) \<noteq> ?id" if "q \<in> set ?qs" for q
  proof -
    from that have "in_grid ic (fst q) (snd q)" "q \<noteq> (i, j)"
      using nbrs_neq [of q i j] by (auto simp: unknown_def)
    then show ?thesis
      using flat_index_eq_iff [OF v, of q "(i, j)"] g f by simp
  qed
  have split: "filter (\<lambda>t. fst t = ?id \<and> Q (fst (snd t))) ?cs =
               filter (\<lambda>t. Q (fst (snd t))) (?off @ [(?id, ?id, d_of_int A 4)])" for Q
  proof -
    have "filter (\<lambda>t. fst t = ?id \<and> Q (fst (snd t))) ?cs =
          filter (\<lambda>t. Q (fst (snd t))) (filter (\<lambda>t. fst t = ?id) ?cs)"
      by (simp only: filter_filter)
    then show ?thesis by (simp only: row)
  qed
  have diag: "filter (\<lambda>t. fst t = ?id \<and> fst (snd t) = ?id) ?cs = [(?id, ?id, d_of_int A 4)]"
    unfolding split [of "\<lambda>c. c = ?id"] using qne by (simp add: filter_empty_conv)
  have off: "filter (\<lambda>t. fst t = ?id \<and> fst (snd t) \<noteq> ?id) ?cs = ?off"
    unfolding split [of "\<lambda>c. c \<noteq> ?id"] using qne by (simp add: filter_id_conv)
  have l4: "length ?off \<le> 4"
    using length_filter_le [of "unknown A circles ic" "nbrs i j"] by (simp add: nbrs_def)
  have w: "snd (snd t) = d_of_int A (- 1)"
    if "t \<in> set ?cs" "fst t = ?id \<and> fst (snd t) \<noteq> ?id" for t
  proof -
    from that have "t \<in> set (filter (\<lambda>t. fst t = ?id \<and> fst (snd t) \<noteq> ?id) ?cs)" by simp
    then show ?thesis unfolding off by auto
  qed
  have "(\<Sum>t \<leftarrow> ?off. nrm (snd (snd t))) = real (length ?off)"
    by (simp add: comp_def nrm(1) sum_list_triv)
  with l4 have dom: "(\<Sum>t \<leftarrow> ?off. nrm (snd (snd t))) \<le> nrm (d_of_int A 4)"
    by (simp add: nrm(2))
  have "filter (\<lambda>(r, c, w). r = ?id \<and> c = ?id) ?cs = [(?id, ?id, d_of_int A 4)] \<and>
        length (filter (\<lambda>(r, c, w). r = ?id \<and> c \<noteq> ?id) ?cs) \<le> 4 \<and>
        (\<forall>(r, c, w) \<in> set ?cs. r = ?id \<and> c \<noteq> ?id \<longrightarrow> w = d_of_int A (- 1)) \<and>
        (\<Sum>(r, c, w) \<leftarrow> filter (\<lambda>(r, c, w). r = ?id \<and> c \<noteq> ?id) ?cs. nrm w)
          \<le> nrm (d_of_int A 4)"
    unfolding case_prod_unfold using diag off l4 w dom by simp
  with 1 r show ?thesis by blast
qed

theorem unpinned_point_row_witness:
  "valid_grid grid2 \<and> in_grid grid2 0 0 \<and>
   \<not> fst (circularConditionsCheck exact_arith 0 0 [disc 1 1 (1/2) 5] grid2) \<and>
   insertCoefficient exact_arith 0 0 0 4 [] [9, 9, 9, 9] [disc 1 1 (1/2) 5] grid2 box1234 =
     Inr ([(0, 0, 4)], [9, 9, 9, 9]) \<and>
   (\<exists>cs b'. buildProblem exact_arith [] [9, 9, 9, 9] [disc 1 1 (1/2) 5] grid2 box1234 = Inr (cs, b') \<and>
      filter (\<lambda>(r, c, w). r = 0 \<and> c = 0) cs = [(0, 0, 4)] \<and>
      filter (\<lambda>(r, c, w). r = 0 \<and> c \<noteq> 0) cs = [(0, 1, - 1), (0, 2, - 1)] \<and>
      (\<Sum>(r, c, w) \<leftarrow> filter (\<lambda>(r, c, w). r = 0 \<and> c \<noteq> 0) cs. \<bar>w\<bar>) \<le> \<bar>4\<bar>)"
  using unpinned_point_row [of grid2 "[9, 9, 9, 9]" 0 0 "[disc 1 1 (1/2) 5]" exact_arith abs 0
      "[]" "[9, 9, 9, 9]" box1234] valid_grid2
  by (simp add: build_grid2_example)
     (simp add: in_grid_def grid2_def disc_def circularConditionsCheck_def exact_arith_def
       wrap32_def)

text \<open>
  Claim C7. On a valid grid the flattening \<open>id = i + j * nx\<close>, as the source computes it,
  is a bijection from the grid points onto \<open>{0, ..., nx * ny - 1}\<close>. The reshape loops of
  \<^verbatim>\<open>main\<close>, run on a solution vector \<open>x\<close> of length \<open>nx * ny\<close>, return the matrix \<open>g\<close> of
  \<open>ny\<close> rows and \<open>nx\<close> columns with \<open>g[j][i] = x[i + j * nx]\<close>; reading \<open>g\<close> row by row,
  which is the order of the flattened index, gives \<open>x\<close> back, and reshaping the row-by-row
  reading of any matrix \<open>g0\<close> of that shape gives \<open>g0\<close> back.
\<close>

theorem flattening_reshape_inverse:
  assumes v: "valid_grid ic"
    and len: "int (length x) = x_grid_size ic * y_grid_size ic"
    and sh: "grid_shape ic result" and sh0: "grid_shape ic g0"
  shows "bij_betw (\<lambda>(i, j). flat_index ic i j)
           {(i, j). 0 \<le> i \<and> i < x_grid_size ic \<and> 0 \<le> j \<and> j < y_grid_size ic}
           {0..<x_grid_size ic * y_grid_size ic} \<and>
         (\<forall>(i, j) \<in> {(i, j). 0 \<le> i \<and> i < x_grid_size ic \<and> 0 \<le> j \<and> j < y_grid_size ic}.
            flat_index ic i j = i + j * x_grid_size ic) \<and>
         (\<exists>g. reshape_result ic x result = Inr g \<and> grid_shape ic g \<and>
            (\<forall>i j. 0 \<le> i \<and> i < x_grid_size ic \<and> 0 \<le> j \<and> j < y_grid_size ic \<longrightarrow>
               g ! nat j ! nat i = x ! nat (i + j * x_grid_size ic)) \<and>
            concat g = x) \<and>
         reshape_result ic (concat g0) result = Inr g0"
proof -
  let ?G = "\<lambda>x. map (\<lambda>j. map (\<lambda>i. x ! nat (flat_index ic i j)) [0..x_grid_size ic - 1])
            [0..y_grid_size ic - 1]"
  from v have p: "0 < x_grid_size ic" "0 < y_grid_size ic" by (simp_all add: valid_grid_def)
  have shG: "grid_shape ic (?G y)" for y :: "'a list"
    using p by (auto simp: grid_shape_def)
  have cc: "concat (?G y) = y" if "int (length y) = x_grid_size ic * y_grid_size ic"
    for y :: "'a list"
  proof -
    have "nat (y_grid_size ic) * nat (x_grid_size ic) = length y"
      using that p by (metis mult.commute nat_int nat_mult_distrib order_less_imp_le)
    then show ?thesis
      unfolding reshaped_rows_nat [OF v] by (simp add: concat_rows_take)
  qed
  have 1: "bij_betw (\<lambda>(i, j). flat_index ic i j)
           {(i, j). 0 \<le> i \<and> i < x_grid_size ic \<and> 0 \<le> j \<and> j < y_grid_size ic}
           {0..<x_grid_size ic * y_grid_size ic}"
    using flat_index_bij [OF v] by (simp add: in_grid_def)
  have 2: "\<forall>(i, j) \<in> {(i, j). 0 \<le> i \<and> i < x_grid_size ic \<and> 0 \<le> j \<and> j < y_grid_size ic}.
            flat_index ic i j = i + j * x_grid_size ic"
    using flat_index_in_grid [OF v] by (auto simp: in_grid_def)
  have nth: "?G x ! nat j ! nat i = x ! nat (i + j * x_grid_size ic)"
    if "0 \<le> i \<and> i < x_grid_size ic \<and> 0 \<le> j \<and> j < y_grid_size ic" for i j
  proof -
    from that have "in_grid ic i j" by (simp add: in_grid_def)
    from flat_index_in_grid [OF v this] that show ?thesis by simp
  qed
  have 3: "reshape_result ic x result = Inr (?G x)"
    by (rule reshape_result_eq [OF v len sh])
  have l0: "int (length (concat g0)) = x_grid_size ic * y_grid_size ic"
    by (rule length_concat_shape [OF sh0])
  have "concat (?G (concat g0)) = concat g0"
    by (rule cc [OF l0])
  moreover have "length (?G (concat g0)) = length g0"
  proof -
    from sh0 have "y_grid_size ic = int (length g0)" by (simp add: grid_shape_def)
    then show ?thesis by simp
  qed
  moreover have "\<forall>(r, r') \<in> set (zip (?G (concat g0)) g0). length r = length r'"
  proof -
    have "int (length r) = int (length r')" if "(r, r') \<in> set (zip (?G (concat g0)) g0)" for r r'
      using shG [of "concat g0"] sh0 set_zip_leftD [OF that] set_zip_rightD [OF that]
      unfolding grid_shape_def by metis
    then show ?thesis by auto
  qed
  ultimately have "?G (concat g0) = g0"
    by (rule concat_injective)
  then have 4: "reshape_result ic (concat g0) result = Inr g0"
    using reshape_result_eq [OF v l0 sh] by simp
  from 1 2 3 4 shG [of x] nth cc [OF len] show ?thesis
    by (intro conjI exI [of _ "?G x"]) blast+
qed

theorem flattening_reshape_inverse_witness:
  "valid_grid grid2 \<and> grid_shape grid2 [[0, 0], [0, 0 :: int]] \<and>
   grid_shape grid2 [[1, 2], [3, 4 :: int]] \<and>
   bij_betw (\<lambda>(i, j). flat_index grid2 i j) {(i, j). 0 \<le> i \<and> i < 2 \<and> 0 \<le> j \<and> j < 2} {0..<4} \<and>
   reshape_result grid2 [10, 20, 30, 40 :: int] [[0, 0], [0, 0]] = Inr [[10, 20], [30, 40]] \<and>
   concat [[10, 20], [30, 40 :: int]] = [10, 20, 30, 40] \<and>
   reshape_result grid2 (concat [[1, 2], [3, 4 :: int]]) [[0, 0], [0, 0]] = Inr [[1, 2], [3, 4]]"
  using flattening_reshape_inverse [of grid2 "[10, 20, 30, 40 :: int]" "[[0, 0], [0, 0]]"
      "[[1, 2], [3, 4]]"] valid_grid2
  by (simp add: grid_shape_def reshape_grid2_example) (simp add: grid2_def)

text \<open>
  Claim C8. Assembly is deterministic: the model is a function of its inputs, and the one
  piece of state it could inherit, the contents of the freshly allocated right-hand side
  \<^verbatim>\<open>b\<close>, is erased by \<^verbatim>\<open>b.setZero()\<close>. Two runs on the same grid, boundary
  conditions and inclusions give the same coefficient list, in the same order, and the
  same right-hand side, whatever the two buffers held before.
\<close>

theorem buildProblem_deterministic:
  "length b = length b' \<Longrightarrow>
   buildProblem A coefficients b circles ic bc_grid =
   buildProblem A coefficients b' circles ic bc_grid"
  by (simp add: buildProblem_def map_replicate_const)

theorem buildProblem_deterministic_witness:
  "length [9, 9, 9, 9 :: real] = length [0, 0, 0, 0 :: real] \<and>
   buildProblem exact_arith [] [0, 0, 0, 0] [disc 1 1 (1/2) 5] grid2 box1234 =
     Inr ([(0, 1, - 1), (0, 2, - 1), (0, 0, 4),
           (1, 0, - 1), (1, 1, 4),
           (2, 0, - 1), (2, 2, 4),
           (3, 3, 1)], [4, 10, 10, 5])"
  using buildProblem_deterministic [of "[9, 9, 9, 9 :: real]" "[0, 0, 0, 0 :: real]" exact_arith "[]"
      "[disc 1 1 (1/2) 5]" grid2 box1234]
  by (simp add: build_grid2_example)

text \<open>
  Claim C9. For every valid grid the coefficient list that the assembly returns has no
  two entries with the same row and column.
\<close>

theorem coefficient_keys_distinct:
  assumes v: "valid_grid ic" and len: "int (length b) = x_grid_size ic * y_grid_size ic"
  shows "\<exists>cs b'. buildProblem A [] b circles ic bc_grid = Inr (cs, b') \<and>
           distinct (map (\<lambda>(r, c, w). (r, c)) cs)"
proof -
  obtain b' where r: "buildProblem A [] b circles ic bc_grid =
      Inr (all_coeffs A circles ic bc_grid, b')"
    using buildProblem_coeffs [OF v len, of A circles bc_grid] by blast
  have "distinct (map (\<lambda>(r, c, w). (r, c)) (all_coeffs A circles ic bc_grid))"
    using distinct_keys [OF v, of A circles bc_grid] by (simp add: case_prod_unfold)
  with r show ?thesis by blast
qed

theorem coefficient_keys_distinct_witness:
  "valid_grid grid2 \<and>
   (\<exists>cs b'. buildProblem exact_arith [] [9, 9, 9, 9] [disc 1 1 (1/2) 5] grid2 box1234 = Inr (cs, b') \<and>
      length cs = 8 \<and> distinct (map (\<lambda>(r, c, w). (r, c)) cs))"
  using coefficient_keys_distinct [of grid2 "[9, 9, 9, 9]" exact_arith "[disc 1 1 (1/2) 5]" box1234]
    valid_grid2
  by (simp add: build_grid2_example)

text \<open>
  Claim C10. For every valid grid and a right-hand side of length \<open>nx * ny\<close> the assembly
  runs to its end without an access out of range (every read and write of \<^verbatim>\<open>b\<close> and of
  \<^verbatim>\<open>circles\<close> in the model is checked, and the result is not an error), the right-hand
  side keeps its length, and the row and the column of every coefficient are in
  \<open>[0, nx * ny)\<close>.
\<close>

theorem accesses_in_bounds:
  assumes v: "valid_grid ic" and len: "int (length b) = x_grid_size ic * y_grid_size ic"
  shows "\<exists>cs b'. buildProblem A [] b circles ic bc_grid = Inr (cs, b') \<and>
           int (length b') = x_grid_size ic * y_grid_size ic \<and>
           (\<forall>(r, c, w) \<in> set cs.
              0 \<le> r \<and> r < x_grid_size ic * y_grid_size ic \<and>
              0 \<le> c \<and> c < x_grid_size ic * y_grid_size ic)"
proof -
  obtain b' where r: "buildProblem A [] b circles ic bc_grid =
      Inr (all_coeffs A circles ic bc_grid, b')" and l: "length b' = length b"
    using buildProblem_coeffs [OF v len, of A circles bc_grid] by blast
  have "0 \<le> r \<and> r < x_grid_size ic * y_grid_size ic \<and>
        0 \<le> c \<and> c < x_grid_size ic * y_grid_size ic"
    if "(r, c, w) \<in> set (all_coeffs A circles ic bc_grid)" for r c w
    using coeff_indices [OF v that] flat_index_range [OF v] by blast
  with r l len show ?thesis by auto
qed

theorem accesses_in_bounds_witness:
  "valid_grid grid2 \<and>
   (\<exists>cs b'. buildProblem exact_arith [] [9, 9, 9, 9] [disc 1 1 (1/2) 5] grid2 box1234 = Inr (cs, b') \<and>
      length b' = 4 \<and> (\<forall>(r, c, w) \<in> set cs. 0 \<le> r \<and> r < 4 \<and> 0 \<le> c \<and> c < 4))"
  using accesses_in_bounds [of grid2 "[9, 9, 9, 9]" exact_arith "[disc 1 1 (1/2) 5]" box1234]
    valid_grid2
  by (simp add: build_grid2_example)

end
